theory Spec2Isabelle
  imports Complex_Main "HOL-Library.Sublist" "HOL-Library.Log_Nat" "HOL-Library.Word"
begin

unbundle bit_operations_syntax

section \<open>JavaScript strings\<close>

text \<open>
  A JavaScript string is a sequence of code units. It is modelled by \<^typ>\<open>string\<close>, whose
  characters are the code units 0 to 255 (ASCII and Latin-1); every string the relay
  compares against (digits, hexadecimal digits, dots, colons, brackets, header names) lies
  in that range. The receiver of a method is the first argument of its model.
\<close>

fun stripPrefix :: "string \<Rightarrow> string \<Rightarrow> string option" where
  "stripPrefix [] s = Some s"
| "stripPrefix (p # ps) [] = None"
| "stripPrefix (p # ps) (c # cs) = (if p = c then stripPrefix ps cs else None)"

lemma stripPrefix_length: "stripPrefix p s = Some r \<Longrightarrow> length r + length p = length s"
  by (induction p s rule: stripPrefix.induct) (auto split: if_splits)

text \<open>
  \<^verbatim>\<open>s.split(sep)\<close> for a string separator: the pieces between the occurrences of
  \<open>sep\<close>, found from the left; the empty separator gives the code units.
\<close>

function split_str :: "string \<Rightarrow> string \<Rightarrow> string list" where
  "split_str s sep =
     (if sep = [] then map (\<lambda>c. [c]) s
      else case stripPrefix sep s of
        Some rest \<Rightarrow> [] # split_str rest sep
      | None \<Rightarrow>
          (case s of
            [] \<Rightarrow> [[]]
          | c # cs \<Rightarrow> (case split_str cs sep of [] \<Rightarrow> [[c]] | p # ps \<Rightarrow> (c # p) # ps)))"
  by pat_completeness auto
termination
proof (relation "measure (\<lambda>(s, sep). length s)")
  show "wf (measure (\<lambda>(s, sep). length s))" by simp
next
  fix s sep rest :: string
  assume "sep \<noteq> []" and "stripPrefix sep s = Some rest"
  then show "((rest, sep), (s, sep)) \<in> measure (\<lambda>(s, sep). length s)"
    using stripPrefix_length [of sep s rest] by (cases sep) auto
next
  fix s sep :: string and c cs
  assume "s = c # cs"
  then show "((cs, sep), (s, sep)) \<in> measure (\<lambda>(s, sep). length s)" by simp
qed

declare split_str.simps [simp del]

text \<open>\<^verbatim>\<open>s.includes(sub)\<close>: \<open>sub\<close> occurs somewhere in \<open>s\<close>.\<close>

fun includes_str :: "string \<Rightarrow> string \<Rightarrow> bool" where
  "includes_str [] sub = (sub = [])"
| "includes_str (c # cs) sub = (prefix sub (c # cs) \<or> includes_str cs sub)"

definition startsWith :: "string \<Rightarrow> string \<Rightarrow> bool" where
  "startsWith s p = prefix p s"

text \<open>\<^verbatim>\<open>s.padStart(n, c)\<close> with a one-character filler; a longer string is left as it is.\<close>

definition padStart :: "string \<Rightarrow> nat \<Rightarrow> char \<Rightarrow> string" where
  "padStart s n c = replicate (n - length s) c @ s"

text \<open>
  \<^verbatim>\<open>s.toLowerCase()\<close> on the code units 0 to 255: A to Z, and the Latin-1 capitals
  (192 to 222 without the multiplication sign 215), move up by 32.
\<close>

definition lowerChar :: "char \<Rightarrow> char" where
  "lowerChar c =
     (let n = (of_char c :: nat)
      in if (65 \<le> n \<and> n \<le> 90) \<or> (192 \<le> n \<and> n \<le> 222 \<and> n \<noteq> 215)
         then char_of (n + 32) else c)"

definition toLowerCase :: "string \<Rightarrow> string" where
  "toLowerCase s = map lowerChar s"

text \<open>\<^verbatim>\<open>parts.join(sep)\<close>.\<close>

fun join :: "string list \<Rightarrow> string \<Rightarrow> string" where
  "join [] sep = []"
| "join [x] sep = x"
| "join (x # y # ys) sep = x @ sep @ join (y # ys) sep"

text \<open>\<^verbatim>\<open>s.slice(-n)\<close>: the last \<open>n\<close> code units (all of \<open>s\<close> when it is shorter).\<close>

definition sliceLast :: "string \<Rightarrow> nat \<Rightarrow> string" where
  "sliceLast s n = drop (length s - n) s"

text \<open>\<^verbatim>\<open>s.slice(i, j)\<close> and \<^verbatim>\<open>s.substring(i, j)\<close> for \<open>0 \<le> i \<le> j\<close>.\<close>

definition slice :: "string \<Rightarrow> nat \<Rightarrow> nat \<Rightarrow> string" where
  "slice s i j = take (j - i) (drop i s)"

section \<open>JavaScript numbers\<close>

definition isDecimalDigit :: "char \<Rightarrow> bool" where
  "isDecimalDigit c = (c \<in> set ''0123456789'')"

definition isHexDigit :: "char \<Rightarrow> bool" where
  "isHexDigit c = (c \<in> set ''0123456789abcdefABCDEF'')"

text \<open>The value of a digit in a radix up to 16.\<close>

definition digitValue :: "char \<Rightarrow> nat" where
  "digitValue c =
     (if c \<in> set ''0123456789'' then of_char c - 48
      else if c \<in> set ''abcdef'' then of_char c - 87
      else of_char c - 55)"

definition radixValue :: "nat \<Rightarrow> string \<Rightarrow> nat" where
  "radixValue r ds = foldl (\<lambda>a c. r * a + digitValue c) 0 ds"

text \<open>
  White space and line terminators among the code units 0 to 255: TAB, LF, VT, FF, CR,
  SP and NBSP. \<^verbatim>\<open>Number\<close> and \<^verbatim>\<open>parseInt\<close> skip them.
\<close>

definition isStrWhiteSpaceChar :: "char \<Rightarrow> bool" where
  "isStrWhiteSpaceChar c = ((of_char c :: nat) \<in> {9, 10, 11, 12, 13, 32, 160})"

definition trim :: "string \<Rightarrow> string" where
  "trim s = rev (dropWhile isStrWhiteSpaceChar (rev (dropWhile isStrWhiteSpaceChar s)))"

text \<open>
  A Number is an IEEE 754 double: NaN, an infinity, or a finite value, held as the
  rational it denotes. The two zeros are one value here: the code compares numbers
  (\<^verbatim>\<open><\<close>, \<^verbatim>\<open>>\<close>, \<^verbatim>\<open>===\<close>) and prints them, and neither tells \<open>-0\<close> from \<open>0\<close>.
\<close>

datatype jsnum = NaN | PInf | NInf | Fin rat

text \<open>For \<open>q > 0\<close>, the exponent \<open>e\<close> with \<open>2^e \<le> q < 2^(e+1)\<close>.\<close>

definition binexp :: "rat \<Rightarrow> int" where
  "binexp q =
     (let k = bitlen (fst (quotient_of q)) - bitlen (snd (quotient_of q))
      in if 2 powi k \<le> q then k else k - 1)"

definition roundTiesToEven :: "rat \<Rightarrow> int" where
  "roundTiesToEven x =
     (let f = \<lfloor>x\<rfloor>; r = x - of_int f
      in if r < 1 / 2 then f else if 1 / 2 < r then f + 1 else if even f then f else f + 1)"

text \<open>
  The double nearest to a rational (round to nearest, ties to even): 53 significant bits,
  exponents from -1022 (below it the subnormal spacing \<open>2^-1074\<close>), and an infinity from
  \<open>2^1024\<close> on.
\<close>

definition round_double :: "rat \<Rightarrow> jsnum" where
  "round_double q =
     (if q = 0 then Fin 0
      else
        let a = \<bar>q\<bar>;
            e = max (binexp a) (- 1022);
            r = of_int (roundTiesToEven (a / 2 powi (e - 52))) * 2 powi (e - 52)
        in if 2 powi 1024 \<le> r then (if q < 0 then NInf else PInf)
           else Fin (if q < 0 then - r else r))"

fun js_neg :: "jsnum \<Rightarrow> jsnum" where
  "js_neg NaN = NaN"
| "js_neg PInf = NInf"
| "js_neg NInf = PInf"
| "js_neg (Fin q) = Fin (- q)"

text \<open>\<^verbatim>\<open>x < y\<close>, \<^verbatim>\<open>x > y\<close>, \<^verbatim>\<open>x <= y\<close>, \<^verbatim>\<open>x >= y\<close> and \<^verbatim>\<open>x === y\<close> on Numbers: all false on NaN.\<close>

fun js_lt :: "jsnum \<Rightarrow> jsnum \<Rightarrow> bool" where
  "js_lt NaN y = False"
| "js_lt x NaN = False"
| "js_lt x NInf = False"
| "js_lt NInf y = True"
| "js_lt PInf y = False"
| "js_lt (Fin x) PInf = True"
| "js_lt (Fin x) (Fin y) = (x < y)"

fun js_eq :: "jsnum \<Rightarrow> jsnum \<Rightarrow> bool" where
  "js_eq NaN y = False"
| "js_eq x NaN = False"
| "js_eq x y = (x = y)"

definition js_gt :: "jsnum \<Rightarrow> jsnum \<Rightarrow> bool" where
  "js_gt x y = js_lt y x"

definition js_le :: "jsnum \<Rightarrow> jsnum \<Rightarrow> bool" where
  "js_le x y = (js_lt x y \<or> js_eq x y)"

definition js_ge :: "jsnum \<Rightarrow> jsnum \<Rightarrow> bool" where
  "js_ge x y = js_le y x"

definition isNaN :: "jsnum \<Rightarrow> bool" where
  "isNaN x = (x = NaN)"

text \<open>
  \<^verbatim>\<open>Number(s)\<close> on a string (StringToNumber): white space is trimmed; the empty string
  is 0; \<^verbatim>\<open>0x\<close>, \<^verbatim>\<open>0o\<close> and \<^verbatim>\<open>0b\<close> introduce an unsigned integer in radix 16, 8 and 2; a
  decimal literal has an optional sign, then \<^verbatim>\<open>Infinity\<close> or digits with an optional
  fraction and an optional exponent; anything else is NaN.
\<close>

definition decimalDigits :: "string \<Rightarrow> nat option" where
  "decimalDigits s = (if s \<noteq> [] \<and> list_all isDecimalDigit s then Some (radixValue 10 s) else None)"

definition exponentPart :: "string \<Rightarrow> int option" where
  "exponentPart s =
     (case s of
        [] \<Rightarrow> Some 0
      | c # r \<Rightarrow>
          if c = CHR ''e'' \<or> c = CHR ''E'' then
            (case r of
               [] \<Rightarrow> None
             | d # r' \<Rightarrow>
                 if d = CHR ''+'' then map_option int (decimalDigits r')
                 else if d = CHR ''-'' then map_option (\<lambda>n. - int n) (decimalDigits r')
                 else map_option int (decimalDigits r))
          else None)"

definition StrUnsignedDecimalLiteral :: "string \<Rightarrow> jsnum" where
  "StrUnsignedDecimalLiteral s =
     (if s = ''Infinity'' then PInf
      else
        let ip = takeWhile isDecimalDigit s;
            r1 = dropWhile isDecimalDigit s;
            hasDot = (case r1 of [] \<Rightarrow> False | c # _ \<Rightarrow> c = CHR ''.'');
            fp = (if hasDot then takeWhile isDecimalDigit (tl r1) else []);
            r2 = (if hasDot then dropWhile isDecimalDigit (tl r1) else r1)
        in if ip = [] \<and> fp = [] then NaN
           else case exponentPart r2 of
             None \<Rightarrow> NaN
           | Some e \<Rightarrow> round_double (of_nat (radixValue 10 (ip @ fp)) * 10 powi (e - int (length fp))))"

definition StrDecimalLiteral :: "string \<Rightarrow> jsnum" where
  "StrDecimalLiteral s =
     (case s of
        [] \<Rightarrow> NaN
      | c # r \<Rightarrow>
          if c = CHR ''+'' then StrUnsignedDecimalLiteral r
          else if c = CHR ''-'' then js_neg (StrUnsignedDecimalLiteral r)
          else StrUnsignedDecimalLiteral s)"

definition NonDecimalIntegerLiteral :: "string \<Rightarrow> jsnum option" where
  "NonDecimalIntegerLiteral s =
     (case s of
        z # x # ds \<Rightarrow>
          if z = CHR ''0'' \<and> ds \<noteq> [] then
            (if (x = CHR ''x'' \<or> x = CHR ''X'') \<and> list_all isHexDigit ds
               then Some (round_double (of_nat (radixValue 16 ds)))
             else if (x = CHR ''o'' \<or> x = CHR ''O'') \<and> list_all (\<lambda>c. c \<in> set ''01234567'') ds
               then Some (round_double (of_nat (radixValue 8 ds)))
             else if (x = CHR ''b'' \<or> x = CHR ''B'') \<and> list_all (\<lambda>c. c \<in> set ''01'') ds
               then Some (round_double (of_nat (radixValue 2 ds)))
             else None)
          else None
      | _ \<Rightarrow> None)"

definition Number :: "string \<Rightarrow> jsnum" where
  "Number s =
     (let t = trim s
      in if t = [] then Fin 0
         else case NonDecimalIntegerLiteral t of
           Some v \<Rightarrow> v
         | None \<Rightarrow> StrDecimalLiteral t)"

text \<open>
  \<^verbatim>\<open>parseInt(s, R)\<close> for a radix \<open>R\<close> from 2 to 16: leading white space is skipped, then an
  optional sign, for radix 16 an optional \<^verbatim>\<open>0x\<close>, and the longest run of digits of the
  radix is read; with no digit the result is NaN.
\<close>

definition isRadixDigit :: "nat \<Rightarrow> char \<Rightarrow> bool" where
  "isRadixDigit R c = (isHexDigit c \<and> digitValue c < R)"

definition parseInt :: "string \<Rightarrow> nat \<Rightarrow> jsnum" where
  "parseInt s R =
     (let t = dropWhile isStrWhiteSpaceChar s;
          neg = (case t of [] \<Rightarrow> False | c # _ \<Rightarrow> c = CHR ''-'');
          t1 = (case t of [] \<Rightarrow> [] | c # r \<Rightarrow> if c = CHR ''+'' \<or> c = CHR ''-'' then r else t);
          t2 = (if R = 16 \<and> (take 2 t1 = ''0x'' \<or> take 2 t1 = ''0X'') then drop 2 t1 else t1);
          ds = takeWhile (isRadixDigit R) t2
      in if ds = [] then NaN
         else if neg then js_neg (round_double (of_nat (radixValue R ds)))
         else round_double (of_nat (radixValue R ds)))"

text \<open>Decimal digits of a natural number, as \<^verbatim>\<open>String(n)\<close> prints an integer.\<close>

fun showNat :: "nat \<Rightarrow> string" where
  "showNat n =
     (if n < 10 then [''0123456789'' ! n]
      else showNat (n div 10) @ [''0123456789'' ! (n mod 10)])"

declare showNat.simps [simp del]

definition showInt :: "int \<Rightarrow> string" where
  "showInt i = (if i < 0 then CHR ''-'' # showNat (nat (- i)) else showNat (nat i))"

text \<open>
  \<^verbatim>\<open>String(x)\<close>, as a template literal prints a Number: NaN, the infinities, and an
  integer below \<open>10^21\<close> in decimal digits. The code prints results of \<^verbatim>\<open>parseInt\<close> on at
  most two characters and configuration counts only, which are such values; the printing of
  other Numbers (fractions, exponents) is not modelled and stands as \<^verbatim>\<open>?\<close>.
\<close>

definition NumberToString :: "jsnum \<Rightarrow> string" where
  "NumberToString x =
     (case x of
        NaN \<Rightarrow> ''NaN''
      | PInf \<Rightarrow> ''Infinity''
      | NInf \<Rightarrow> ''-Infinity''
      | Fin q \<Rightarrow> if q = of_int \<lfloor>q\<rfloor> \<and> \<bar>q\<bar> < 10 ^ 21 then showInt \<lfloor>q\<rfloor> else ''?'')"

text \<open>
  \<^verbatim>\<open>ToInt32\<close>, which the bitwise operators apply to their operands: NaN and the
  infinities give 0, a finite value is truncated towards zero and taken modulo \<open>2^32\<close>.
\<close>

definition ToInt32 :: "jsnum \<Rightarrow> 32 word" where
  "ToInt32 x =
     (case x of
        Fin q \<Rightarrow> word_of_int (if 0 \<le> q then \<lfloor>q\<rfloor> else \<lceil>q\<rceil>)
      | _ \<Rightarrow> 0)"

text \<open>\<^verbatim>\<open>n.toString(16)\<close> of an integer: lower-case hexadecimal digits, a minus sign first.\<close>

fun showHexNat :: "nat \<Rightarrow> string" where
  "showHexNat n =
     (if n < 16 then [''0123456789abcdef'' ! n]
      else showHexNat (n div 16) @ [''0123456789abcdef'' ! (n mod 16)])"

declare showHexNat.simps [simp del]

definition toString16 :: "int \<Rightarrow> string" where
  "toString16 i = (if i < 0 then CHR ''-'' # showHexNat (nat (- i)) else showHexNat (nat i))"

section \<open>The address classifier (utils/ssrf.ts)\<close>

text \<open>
  A thrown exception is a value: its class and its message. The messages of the two
  exceptions the runtime itself raises in the classifier are V8's.
\<close>

datatype js_exn = Error string | RangeError string | TypeError string | AbortError string

fun message :: "js_exn \<Rightarrow> string" where
  "message (Error m) = m"
| "message (RangeError m) = m"
| "message (TypeError m) = m"
| "message (AbortError m) = m"

definition BLOCKED_HOSTNAMES :: "string list" where
  "BLOCKED_HOSTNAMES = [''localhost'', ''metadata.google.internal'', ''metadata.goog'']"

definition isPrivateIPv4 :: "string \<Rightarrow> bool" where
  "isPrivateIPv4 ip =
     (let parts = map Number (split_str ip ''.'')
      in if length parts \<noteq> 4
            \<or> list_ex (\<lambda>p. isNaN p \<or> js_lt p (Fin 0) \<or> js_gt p (Fin 255)) parts
         then True
         else
           let a = parts ! 0; b = parts ! 1
           in if js_eq a (Fin 127) then True
              else if js_eq a (Fin 10) then True
              else if js_eq a (Fin 172) \<and> js_ge b (Fin 16) \<and> js_le b (Fin 31) then True
              else if js_eq a (Fin 192) \<and> js_eq b (Fin 168) then True
              else if js_eq a (Fin 169) \<and> js_eq b (Fin 254) then True
              else if js_eq a (Fin 0) then True
              else False)"

text \<open>
  \<^verbatim>\<open>\d+\.\d+\.\d+\.\d+\<close> matching a whole string: four non-empty runs of decimal digits
  with dots between them.
\<close>

definition isDottedDigits :: "string \<Rightarrow> bool" where
  "isDottedDigits s =
     (let ps = split_str s ''.''
      in length ps = 4 \<and> list_all (\<lambda>p. p \<noteq> [] \<and> list_all isDecimalDigit p) ps)"

text \<open>
  \<^verbatim>\<open>ip.match(/::ffff:(\d+\.\d+\.\d+\.\d+)$/i)\<close>: the first position from the left at which
  \<^verbatim>\<open>::ffff:\<close> (in either case) stands and the rest of the string, up to its end, is a
  dotted run of digits. The result is the capture group \<^verbatim>\<open>match[1]\<close>, or None for null.
  The pattern is not anchored at the start of the string.
\<close>

fun match_mapped :: "string \<Rightarrow> string option" where
  "match_mapped [] = None"
| "match_mapped (c # cs) =
     (if toLowerCase (take 7 (c # cs)) = ''::ffff:'' \<and> isDottedDigits (drop 7 (c # cs))
      then Some (drop 7 (c # cs))
      else match_mapped cs)"

definition normalizeIPv6 :: "string \<Rightarrow> js_exn + string" where
  "normalizeIPv6 ip =
     (case (if includes_str ip ''.'' then match_mapped ip else None) of
        Some m \<Rightarrow>
          let ipv4Parts = map Number (split_str m ''.'');
              hex1 = padStart (toString16 (sint (push_bit 8 (ToInt32 (ipv4Parts ! 0)) OR ToInt32 (ipv4Parts ! 1)))) 4 CHR ''0'';
              hex2 = padStart (toString16 (sint (push_bit 8 (ToInt32 (ipv4Parts ! 2)) OR ToInt32 (ipv4Parts ! 3)))) 4 CHR ''0''
          in Inr (''0000:0000:0000:0000:0000:ffff:'' @ hex1 @ '':'' @ hex2)
      | None \<Rightarrow>
          if includes_str ip ''::'' then
            (let left = split_str ip ''::'' ! 0;
                 right = split_str ip ''::'' ! 1;
                 leftParts = (if left \<noteq> [] then split_str left '':'' else []);
                 rightParts = (if right \<noteq> [] then split_str right '':'' else []);
                 missing = 8 - int (length leftParts) - int (length rightParts)
             in if missing < 0 then Inl (RangeError ''Invalid array length'')
                else
                  let middleParts = replicate (nat missing) ''0000'';
                      segments = leftParts @ middleParts @ rightParts
                  in Inr (join (map (\<lambda>s. toLowerCase (padStart s 4 CHR ''0'')) segments) '':''))
          else
            Inr (join (map (\<lambda>s. toLowerCase (padStart s 4 CHR ''0'')) (split_str ip '':'')) '':''))"

definition isPrivateIPv6 :: "string \<Rightarrow> js_exn + bool" where
  "isPrivateIPv6 ip =
     (case (if includes_str ip ''.'' then match_mapped ip else None) of
        Some m \<Rightarrow> Inr (isPrivateIPv4 m)
      | None \<Rightarrow>
          (case normalizeIPv6 ip of
             Inl e \<Rightarrow> Inl e
           | Inr normalized \<Rightarrow>
               if normalized = ''0000:0000:0000:0000:0000:0000:0000:0001'' then Inr True
               else if startsWith normalized ''0000:0000:0000:0000:0000:ffff:'' then
                 (let lastTwoSegments = sliceLast normalized 9
                  in case split_str lastTwoSegments '':'' of
                       hex1 # hex2 # _ \<Rightarrow>
                         let a = parseInt (slice hex1 0 2) 16;
                             b = parseInt (slice hex1 2 4) 16;
                             c = parseInt (slice hex2 0 2) 16;
                             d = parseInt (slice hex2 2 4) 16
                         in Inr (isPrivateIPv4 (NumberToString a @ ''.'' @ NumberToString b @ ''.''
                                   @ NumberToString c @ ''.'' @ NumberToString d))
                     | _ \<Rightarrow>
                         Inl (TypeError ''Cannot read properties of undefined (reading 'slice')''))
               else
                 let firstSegment = parseInt (slice normalized 0 4) 16
                 in if js_ge firstSegment (Fin 64512) \<and> js_le firstSegment (Fin 65023) then Inr True
                    else if js_ge firstSegment (Fin 65152) \<and> js_le firstSegment (Fin 65215) then Inr True
                    else Inr False))"

definition isPrivateIP :: "string \<Rightarrow> js_exn + bool" where
  "isPrivateIP ip =
     (if ip = ''169.254.169.254'' then Inr True
      else if includes_str ip '':'' then isPrivateIPv6 ip
      else Inr (isPrivateIPv4 ip))"

text \<open>
  A decimal octet, as a dotted quad is written: a non-empty run of decimal digits whose
  value is at most 255. It is the vocabulary of the statements about dotted quads, not
  part of the code.
\<close>

definition isOctet :: "string \<Rightarrow> bool" where
  "isOctet s = (s \<noteq> [] \<and> list_all isDecimalDigit s \<and> radixValue 10 s \<le> 255)"

section \<open>The target resolver (utils/ssrf.ts)\<close>

text \<open>
  What the resolver reads of a parsed \<^verbatim>\<open>URL\<close> object: \<^verbatim>\<open>url.protocol\<close> and
  \<^verbatim>\<open>url.hostname\<close>.
\<close>

record url =
  protocol :: string
  hostname :: string

text \<open>
  The resolver's surroundings are parameters of the model: the platform's URL parser
  (\<^verbatim>\<open>new URL(s)\<close>, None when it throws) and the two DNS lookups (None when the promise
  rejects, otherwise the addresses returned). Their answers are functions of their
  arguments for the length of one relay call.
\<close>

record resolver =
  new_URL :: "string \<Rightarrow> url option"
  dns_resolve4 :: "string \<Rightarrow> string list option"
  dns_resolve6 :: "string \<Rightarrow> string list option"

datatype dns_query = Resolve4 string | Resolve6 string

record resolved =
  res_hostname :: string
  res_ip :: string

text \<open>\<^verbatim>\<open>/^(\d{1,3}\.){3}\d{1,3}$/.test(s)\<close>: four runs of one to three digits, dots between.\<close>

definition ipv4Regex_test :: "string \<Rightarrow> bool" where
  "ipv4Regex_test s =
     (let ps = split_str s ''.''
      in length ps = 4
         \<and> list_all (\<lambda>p. 1 \<le> length p \<and> length p \<le> 3 \<and> list_all isDecimalDigit p) ps)"

text \<open>
  \<^verbatim>\<open>s.replace(/^\[|\]$/g, '')\<close>: an opening bracket at the start and a closing bracket
  at the end are removed.
\<close>

definition stripBrackets :: "string \<Rightarrow> string" where
  "stripBrackets s =
     (let s1 = (case s of [] \<Rightarrow> [] | c # r \<Rightarrow> if c = CHR ''['' then r else s)
      in if s1 \<noteq> [] \<and> last s1 = CHR '']'' then butlast s1 else s1)"

text \<open>
  \<^verbatim>\<open>/^\[?([a-fA-F0-9:]+)\]?$/.test(s)\<close>: between the optional brackets, at least one
  character, each a hexadecimal digit or a colon.
\<close>

definition ipv6Regex_test :: "string \<Rightarrow> bool" where
  "ipv6Regex_test s =
     (let m = stripBrackets s
      in m \<noteq> [] \<and> list_all (\<lambda>c. isHexDigit c \<or> c = CHR '':'') m)"

text \<open>
  The DNS block of \<^verbatim>\<open>resolveAndValidate\<close>: \<^verbatim>\<open>resolve4\<close>, and \<^verbatim>\<open>resolve6\<close> when the first
  rejects or returns no address; the first address found, with the lookups issued.
\<close>

definition resolveDns :: "'a resolver_scheme \<Rightarrow> string \<Rightarrow> string option \<times> dns_query list" where
  "resolveDns w h =
     (case dns_resolve4 w h of
        Some (a # _) \<Rightarrow> (Some a, [Resolve4 h])
      | _ \<Rightarrow>
          (case dns_resolve6 w h of
             Some (a # _) \<Rightarrow> (Some a, [Resolve4 h, Resolve6 h])
           | _ \<Rightarrow> (None, [Resolve4 h, Resolve6 h])))"

text \<open>
  The address \<^verbatim>\<open>resolveAndValidate\<close> hands to the classifier (its \<^verbatim>\<open>if\<close> /
  \<^verbatim>\<open>else if\<close> / \<^verbatim>\<open>else\<close> on the two patterns): the host name itself when it matches the
  IPv4 pattern, the host name without brackets when it matches the IPv6 pattern, and
  otherwise the first address DNS returns; None when DNS gives none.
\<close>

definition chooseIP :: "'a resolver_scheme \<Rightarrow> string \<Rightarrow> string option \<times> dns_query list" where
  "chooseIP w h =
     (if ipv4Regex_test h then (Some h, [])
      else if ipv6Regex_test h then (Some (stripBrackets h), [])
      else resolveDns w h)"

text \<open>
  \<^verbatim>\<open>resolveAndValidate(urlString)\<close>: the exception thrown (Inl) or the object returned
  (Inr), and the DNS lookups issued on the way.
\<close>

definition resolveAndValidate ::
  "'a resolver_scheme \<Rightarrow> string \<Rightarrow> (js_exn + resolved) \<times> dns_query list" where
  "resolveAndValidate w urlString =
     (case new_URL w urlString of
        None \<Rightarrow> (Inl (Error ''Invalid URL''), [])
      | Some u \<Rightarrow>
          if protocol u \<noteq> ''http:'' \<and> protocol u \<noteq> ''https:''
          then (Inl (Error ''Only http and https protocols are allowed''), [])
          else if toLowerCase (hostname u) \<in> set BLOCKED_HOSTNAMES
          then (Inl (Error ''Hostname is blocked''), [])
          else
            (case chooseIP w (hostname u) of
               (None, qs) \<Rightarrow> (Inl (Error ''DNS resolution failed''), qs)
             | (Some ip, qs) \<Rightarrow>
                 (case isPrivateIP ip of
                    Inl e \<Rightarrow> (Inl e, qs)
                  | Inr True \<Rightarrow> (Inl (Error ''URL resolves to a private/internal IP address''), qs)
                  | Inr False \<Rightarrow> (Inr \<lparr>res_hostname = hostname u, res_ip = ip\<rparr>, qs))))"

section \<open>The relay handler (routes/proxy.ts)\<close>

text \<open>
  The model of the handler starts at its step 5. Steps 1 to 4 (content type, origin,
  declared request size, \<^verbatim>\<open>validateProxyRequest\<close>) come before it and leave a
  \<^verbatim>\<open>ProxyRequest\<close>; the per-call timeout only arms the abort signal, whose effect is a
  \<^verbatim>\<open>fetch\<close> that rejects with an AbortError.
\<close>

subsection \<open>Configuration, request, response\<close>

text \<open>
  The byte cap and the allowlist are read as they are; the redirect limit is an integer
  (\<^verbatim>\<open>parseInt\<close> of the environment variable).
\<close>

record config =
  proxyMaxResponseSize :: nat
  proxyAllowedDomains :: "string list"
  proxyMaxRedirects :: int

datatype auth_type = Bearer | Basic | ApiKey

record ProxyAuth =
  auth_type :: auth_type
  credentials :: string
  headerName :: "string option"

text \<open>
  \<^verbatim>\<open>ProxyRequest\<close>: an optional field is an option (None for \<^verbatim>\<open>undefined\<close>); the body is
  a JSON value of a type \<open>'j\<close> the model does not look into.
\<close>

record 'j ProxyRequest =
  req_url :: string
  req_method :: "string option"
  req_body :: "'j option"
  req_contentType :: "string option"
  req_accept :: "string option"
  req_auth :: "ProxyAuth option"

text \<open>
  A plain object used as a dictionary from strings to strings: its own properties, as a
  list of pairs (the order plays no part here). Assigning \<^verbatim>\<open>obj[k] = v\<close> sets or adds the
  property, except for the key \<^verbatim>\<open>__proto__\<close>: there the assignment goes to the setter of
  \<^verbatim>\<open>Object.prototype\<close>, which ignores a string, and the object gets no property.
\<close>

definition obj_set :: "(string \<times> string) list \<Rightarrow> string \<Rightarrow> string \<Rightarrow> (string \<times> string) list" where
  "obj_set obj k v =
     (if k = ''__proto__'' then obj
      else if k \<in> set (map fst obj) then map (\<lambda>(k', v'). if k' = k then (k', v) else (k', v')) obj
      else obj @ [(k, v)])"

definition obj_get :: "(string \<times> string) list \<Rightarrow> string \<Rightarrow> string option" where
  "obj_get obj k = map_of obj k"

text \<open>The options the handler passes to \<^verbatim>\<open>fetch\<close>: method, headers, and the body when set.\<close>

record fetch_init =
  init_method :: string
  init_headers :: "(string \<times> string) list"
  init_body :: "string option"

text \<open>
  One \<^verbatim>\<open>reader.read()\<close> either yields a chunk of bytes or rejects; a body stream is the
  list of these results, and a read past its end reports \<^verbatim>\<open>done\<close>.
\<close>

datatype read_result = Chunk string | ReadFails js_exn

text \<open>
  What the handler reads of a \<^verbatim>\<open>Response\<close>: status, status text, the headers as
  \<^verbatim>\<open>headers.forEach\<close> lists them, and the body (None for a \<^verbatim>\<open>null\<close> body).
\<close>

record response =
  status :: nat
  statusText :: string
  headers :: "(string \<times> string) list"
  body :: "read_result list option"

datatype fetch_result = Rejected js_exn | Fulfilled response

text \<open>
  The surroundings of the handler: the resolver's, and \<^verbatim>\<open>new URL(location, base).toString()\<close>
  (None when it throws), \<^verbatim>\<open>fetch\<close> (its first argument counts the fetches this call has
  issued before, so that the same URL may answer differently on a later hop),
  \<^verbatim>\<open>JSON.stringify\<close>, \<^verbatim>\<open>JSON.parse\<close> (None when it throws) and the UTF-8 decoder,
  applied to the bytes of all chunks in order (what the streaming decoder and its final
  flush produce together).
\<close>

record 'j world = resolver +
  resolve_URL :: "string \<Rightarrow> string \<Rightarrow> string option"
  fetch :: "nat \<Rightarrow> string \<Rightarrow> fetch_init \<Rightarrow> fetch_result"
  JSON_stringify :: "'j \<Rightarrow> string"
  JSON_parse :: "string \<Rightarrow> 'j option"
  TextDecoder_decode :: "string \<Rightarrow> string"

text \<open>The body of the reply: the parsed JSON value, or the text as it is.\<close>

datatype 'j parsed_body = Parsed 'j | Raw string

record 'j ProxyResponse =
  out_status :: nat
  out_statusText :: string
  out_headers :: "(string \<times> string) list"
  out_body :: "'j parsed_body"

text \<open>
  What the handler answers: \<^verbatim>\<open>c.json({error}, status)\<close>, \<^verbatim>\<open>c.json(proxyResponse)\<close> with
  status 200, or an exception that leaves the handler.
\<close>

datatype 'j reply = JsonError nat string | JsonOk "'j ProxyResponse" | Uncaught js_exn

fun reply_status :: "'j reply \<Rightarrow> nat" where
  "reply_status (JsonError st m) = st"
| "reply_status (JsonOk r) = 200"
| "reply_status (Uncaught e) = 500"

text \<open>What the handler does to the outside, in order.\<close>

datatype event = Dns dns_query | Fetch string fetch_init | Read | Cancel

subsection \<open>Helpers of the handler\<close>

text \<open>
  \<^verbatim>\<open>s.toUpperCase()\<close> on the code units 0 to 255: a to z, and the Latin-1 small letters
  224 to 254 without the division sign 247, move down by 32. (The capitals of 181, 223 and
  255 lie outside this range; a method holding one of them does not pass validation.)
\<close>

definition upperChar :: "char \<Rightarrow> char" where
  "upperChar c =
     (let n = (of_char c :: nat)
      in if (97 \<le> n \<and> n \<le> 122) \<or> (224 \<le> n \<and> n \<le> 254 \<and> n \<noteq> 247)
         then char_of (n - 32) else c)"

definition toUpperCase :: "string \<Rightarrow> string" where
  "toUpperCase s = map upperChar s"

definition endsWith :: "string \<Rightarrow> string \<Rightarrow> bool" where
  "endsWith s x = suffix x s"

text \<open>\<^verbatim>\<open>headers.get(name)\<close>: header names are compared without regard to case.\<close>

definition headers_get :: "(string \<times> string) list \<Rightarrow> string \<Rightarrow> string option" where
  "headers_get hs name = map_of (map (\<lambda>(k, v). (toLowerCase k, v)) hs) (toLowerCase name)"

text \<open>
  The allowlist test, written twice in the handler with the same text (step 5 and the
  redirect branch): \<open>host\<close> is the host name in lower case.
\<close>

definition isAllowed :: "string list \<Rightarrow> string \<Rightarrow> bool" where
  "isAllowed domains host =
     list_ex (\<lambda>domain. host = toLowerCase domain \<or> endsWith host (''.'' @ toLowerCase domain))
       domains"

text \<open>Step 7: the headers of the outgoing request.\<close>

definition outgoingHeaders :: "'j ProxyRequest \<Rightarrow> (string \<times> string) list" where
  "outgoingHeaders proxyReq =
     (let h0 = [(''User-Agent'', ''ZenBin-Proxy/1.0'')];
          h1 = (case req_contentType proxyReq of
                  Some (c # cs) \<Rightarrow> obj_set h0 ''Content-Type'' (c # cs)
                | _ \<Rightarrow> if req_body proxyReq \<noteq> None
                       then obj_set h0 ''Content-Type'' ''application/json'' else h0);
          h2 = (case req_accept proxyReq of
                  Some (c # cs) \<Rightarrow> obj_set h1 ''Accept'' (c # cs)
                | _ \<Rightarrow> h1)
      in case req_auth proxyReq of
           None \<Rightarrow> h2
         | Some a \<Rightarrow>
             (case auth_type a of
                Bearer \<Rightarrow> obj_set h2 ''Authorization'' (''Bearer '' @ credentials a)
              | Basic \<Rightarrow> obj_set h2 ''Authorization'' (''Basic '' @ credentials a)
              | ApiKey \<Rightarrow>
                  obj_set h2 (case headerName a of Some (c # cs) \<Rightarrow> c # cs | _ \<Rightarrow> ''X-API-Key'')
                    (credentials a)))"

subsection \<open>Step 8: the redirect loop\<close>

text \<open>
  One pass through the body of the \<^verbatim>\<open>while\<close> loop, at \<open>currentUrl\<close> and \<open>redirectCount\<close>:
  the handler returns, the loop is left with the final response (\<^verbatim>\<open>break\<close>), or it
  goes on at the redirect target (\<^verbatim>\<open>continue\<close>, after \<^verbatim>\<open>redirectCount++\<close>). An
  exception inside the \<^verbatim>\<open>try\<close> is caught by the outer \<^verbatim>\<open>catch\<close>: 504 for an AbortError,
  502 with the exception's message otherwise; \<^verbatim>\<open>new URL\<close> throws a TypeError with the
  message \<^verbatim>\<open>Invalid URL\<close>.
\<close>

datatype 'j hop_result = Return "'j reply" | Break response | Continue string response

definition caught :: "js_exn \<Rightarrow> 'j reply" where
  "caught err =
     (case err of
        AbortError m \<Rightarrow> JsonError 504 ''Request timed out''
      | _ \<Rightarrow> JsonError 502 (message err))"

text \<open>
  \<^verbatim>\<open>fetchOptions\<close>: the method is the caller's on the first pass and GET afterwards; the
  body is set on the first pass, when the request has one and the method is neither GET nor
  HEAD.
\<close>

definition fetchOptions ::
  "'j world \<Rightarrow> string \<Rightarrow> (string \<times> string) list \<Rightarrow> 'j option \<Rightarrow> int \<Rightarrow> fetch_init" where
  "fetchOptions w method hdrs reqBody redirectCount =
     \<lparr>init_method = (if redirectCount = 0 then method else ''GET''),
      init_headers = hdrs,
      init_body = (if redirectCount = 0 \<and> reqBody \<noteq> None \<and> method \<notin> set [''GET'', ''HEAD'']
                   then map_option (JSON_stringify w) reqBody else None)\<rparr>"

text \<open>The end of the redirect branch: \<^verbatim>\<open>redirectCount++\<close> and the test of the limit.\<close>

definition countHop :: "config \<Rightarrow> int \<Rightarrow> string \<Rightarrow> response \<Rightarrow> 'j hop_result" where
  "countHop cfg redirectCount redirectUrl resp =
     (if redirectCount + 1 > proxyMaxRedirects cfg
      then Return (JsonError 502 (''Too many redirects (max: '' @ showInt (proxyMaxRedirects cfg) @ '')''))
      else Continue redirectUrl resp)"

definition hop ::
  "'j world \<Rightarrow> config \<Rightarrow> string \<Rightarrow> (string \<times> string) list \<Rightarrow> 'j option \<Rightarrow> string \<Rightarrow> int
     \<Rightarrow> 'j hop_result \<times> event list" where
  "hop w cfg method hdrs reqBody currentUrl redirectCount =
     (case fetch w (nat redirectCount) currentUrl (fetchOptions w method hdrs reqBody redirectCount) of
        Rejected err \<Rightarrow>
          (Return (caught err), [Fetch currentUrl (fetchOptions w method hdrs reqBody redirectCount)])
      | Fulfilled resp \<Rightarrow>
          if status resp \<in> set [301, 302, 303, 307, 308] then
            (case headers_get (headers resp) ''location'' of
               None \<Rightarrow> (Break resp, [Fetch currentUrl (fetchOptions w method hdrs reqBody redirectCount)])
             | Some [] \<Rightarrow> (Break resp, [Fetch currentUrl (fetchOptions w method hdrs reqBody redirectCount)])
             | Some (c # cs) \<Rightarrow>
                 (case resolve_URL w (c # cs) currentUrl of
                    None \<Rightarrow>
                      (Return (caught (TypeError ''Invalid URL'')),
                       [Fetch currentUrl (fetchOptions w method hdrs reqBody redirectCount)])
                  | Some redirectUrl \<Rightarrow>
                      (case resolveAndValidate w redirectUrl of
                         (Inl err, qs) \<Rightarrow>
                           (Return (JsonError 400 (''Redirect blocked: '' @ message err)),
                            Fetch currentUrl (fetchOptions w method hdrs reqBody redirectCount) # map Dns qs)
                       | (Inr ok, qs) \<Rightarrow>
                           (if proxyAllowedDomains cfg \<noteq> [] then
                              (case new_URL w redirectUrl of
                                 None \<Rightarrow> Return (caught (TypeError ''Invalid URL''))
                               | Some u \<Rightarrow>
                                   if \<not> isAllowed (proxyAllowedDomains cfg) (toLowerCase (hostname u))
                                   then Return (JsonError 400 ''Redirect target domain is not in the allowlist'')
                                   else countHop cfg redirectCount redirectUrl resp)
                            else countHop cfg redirectCount redirectUrl resp,
                            Fetch currentUrl (fetchOptions w method hdrs reqBody redirectCount) # map Dns qs))))
          else (Break resp, [Fetch currentUrl (fetchOptions w method hdrs reqBody redirectCount)]))"

text \<open>
  The loop: \<^verbatim>\<open>while (redirectCount <= maxRedirects)\<close>. It ends with a reply of the
  handler (Inl) or with the variable \<^verbatim>\<open>response\<close> as the loop leaves it (Inr; None for
  \<^verbatim>\<open>null\<close>), and the events of all its passes.
\<close>

function redirectLoop ::
  "'j world \<Rightarrow> config \<Rightarrow> string \<Rightarrow> (string \<times> string) list \<Rightarrow> 'j option \<Rightarrow> string \<Rightarrow> int
     \<Rightarrow> response option \<Rightarrow> ('j reply + response option) \<times> event list" where
  "redirectLoop w cfg method hdrs reqBody currentUrl redirectCount resp =
     (if redirectCount \<le> proxyMaxRedirects cfg then
        (case hop w cfg method hdrs reqBody currentUrl redirectCount of
           (Return r, ev) \<Rightarrow> (Inl r, ev)
         | (Break final, ev) \<Rightarrow> (Inr (Some final), ev)
         | (Continue redirectUrl r, ev) \<Rightarrow>
             (case redirectLoop w cfg method hdrs reqBody redirectUrl (redirectCount + 1) (Some r) of
                (x, ev') \<Rightarrow> (x, ev @ ev')))
      else (Inr resp, []))"
  by pat_completeness auto
termination
  by (relation "measure (\<lambda>(w, cfg, method, hdrs, reqBody, currentUrl, redirectCount, resp).
        nat (proxyMaxRedirects cfg + 1 - redirectCount))") auto

declare redirectLoop.simps [simp del]

subsection \<open>Step 9: the size checks and the body\<close>

text \<open>
  The read loop, from the list of results still to come, with the chunks pushed and the
  running total: how it ends, the chunks it holds then, and its reads and its cancel.
\<close>

datatype read_exit = ReadDone | TooLarge | ReadThrows js_exn

fun readLoop :: "nat \<Rightarrow> read_result list \<Rightarrow> string list \<Rightarrow> nat \<Rightarrow> (read_exit \<times> string list) \<times> event list" where
  "readLoop cap [] chunks totalSize = ((ReadDone, chunks), [Read])"
| "readLoop cap (ReadFails e # rs) chunks totalSize = ((ReadThrows e, chunks), [Read])"
| "readLoop cap (Chunk v # rs) chunks totalSize =
     (if totalSize + length v > cap then ((TooLarge, chunks), [Read, Cancel])
      else case readLoop cap rs (chunks @ [v]) (totalSize + length v) of
             (x, ev) \<Rightarrow> (x, Read # ev))"

subsection \<open>Steps 10 and 11: the reply\<close>

definition responseHeaders :: "(string \<times> string) list \<Rightarrow> (string \<times> string) list" where
  "responseHeaders hs =
     foldl (\<lambda>obj (key, v). if toLowerCase key \<noteq> ''set-cookie'' then obj_set obj key v else obj) [] hs"

definition parsedBody :: "'j world \<Rightarrow> response \<Rightarrow> string \<Rightarrow> 'j parsed_body" where
  "parsedBody w resp responseBody =
     (if includes_str (case headers_get (headers resp) ''content-type'' of None \<Rightarrow> [] | Some v \<Rightarrow> v)
           ''application/json''
      then (case JSON_parse w responseBody of Some j \<Rightarrow> Parsed j | None \<Rightarrow> Raw responseBody)
      else Raw responseBody)"

definition proxyResponse :: "'j world \<Rightarrow> response \<Rightarrow> string \<Rightarrow> 'j ProxyResponse" where
  "proxyResponse w resp responseBody =
     \<lparr>out_status = status resp, out_statusText = statusText resp,
      out_headers = responseHeaders (headers resp),
      out_body = parsedBody w resp responseBody\<rparr>"

text \<open>
  The handler after the loop, on the final response: the declared length, the body read
  under the cap, and the reply.
\<close>

definition respond :: "'j world \<Rightarrow> config \<Rightarrow> response \<Rightarrow> 'j reply \<times> event list" where
  "respond w cfg resp =
     (if (case headers_get (headers resp) ''content-length'' of
            None \<Rightarrow> False
          | Some v \<Rightarrow> v \<noteq> [] \<and> js_gt (parseInt v 10) (Fin (of_nat (proxyMaxResponseSize cfg))))
      then (JsonError 502 ''Response too large'', [])
      else
        (case body resp of
           None \<Rightarrow> (JsonOk (proxyResponse w resp []), [])
         | Some stream \<Rightarrow>
             (case readLoop (proxyMaxResponseSize cfg) stream [] 0 of
                ((ReadDone, chunks), ev) \<Rightarrow>
                  (JsonOk (proxyResponse w resp (TextDecoder_decode w (concat chunks))), ev)
              | ((TooLarge, chunks), ev) \<Rightarrow> (JsonError 502 ''Response too large'', ev)
              | ((ReadThrows e, chunks), ev) \<Rightarrow> (JsonError 502 (message e), ev))))"

subsection \<open>The handler\<close>

text \<open>\<^verbatim>\<open>const method = (proxyReq.method || 'GET').toUpperCase()\<close>.\<close>

definition methodOf :: "'j ProxyRequest \<Rightarrow> string" where
  "methodOf proxyReq = toUpperCase (case req_method proxyReq of Some (c # cs) \<Rightarrow> c # cs | _ \<Rightarrow> ''GET'')"

text \<open>
  Steps 5 and 6 on the request's URL: the allowlist, when one is configured, then
  \<^verbatim>\<open>resolveAndValidate\<close>. The result is the reply when the handler returns here (the
  \<^verbatim>\<open>new URL\<close> of step 5 is outside any \<^verbatim>\<open>try\<close>), or None when it goes on.
\<close>

definition checkTarget :: "'j world \<Rightarrow> config \<Rightarrow> 'j ProxyRequest \<Rightarrow> 'j reply option \<times> event list" where
  "checkTarget w cfg proxyReq =
     (case (if proxyAllowedDomains cfg \<noteq> [] then
              (case new_URL w (req_url proxyReq) of
                 None \<Rightarrow> Some (Uncaught (TypeError ''Invalid URL''))
               | Some targetUrl \<Rightarrow>
                   if \<not> isAllowed (proxyAllowedDomains cfg) (toLowerCase (hostname targetUrl))
                   then Some (JsonError 400 ''Target domain is not in the allowlist'')
                   else None)
            else None) of
        Some r \<Rightarrow> (Some r, [])
      | None \<Rightarrow>
          (case resolveAndValidate w (req_url proxyReq) of
             (Inl err, qs) \<Rightarrow> (Some (JsonError 400 (message err)), map Dns qs)
           | (Inr ok, qs) \<Rightarrow> (None, map Dns qs)))"

definition proxy_post :: "'j world \<Rightarrow> config \<Rightarrow> 'j ProxyRequest \<Rightarrow> 'j reply \<times> event list" where
  "proxy_post w cfg proxyReq =
     (case checkTarget w cfg proxyReq of
        (Some r, ev0) \<Rightarrow> (r, ev0)
      | (None, ev0) \<Rightarrow>
          (case redirectLoop w cfg (methodOf proxyReq) (outgoingHeaders proxyReq) (req_body proxyReq)
                  (req_url proxyReq) 0 None of
             (Inl r, ev) \<Rightarrow> (r, ev0 @ ev)
           | (Inr None, ev) \<Rightarrow> (JsonError 502 ''No response received'', ev0 @ ev)
           | (Inr (Some resp), ev) \<Rightarrow>
               (case respond w cfg resp of (r, ev') \<Rightarrow> (r, ev0 @ ev @ ev'))))"

subsection \<open>Vocabulary of the statements about the handler\<close>

text \<open>The fetches among the events, in order: the URL and the options of each.\<close>

fun fetches :: "event list \<Rightarrow> (string \<times> fetch_init) list" where
  "fetches [] = []"
| "fetches (Fetch u i # es) = (u, i) # fetches es"
| "fetches (e # es) = fetches es"

text \<open>
  A URL passes the two checks: \<^verbatim>\<open>resolveAndValidate\<close> returns on it, and with a
  non-empty allowlist its host name, in lower case, equals an allowed domain in lower case
  or ends with a dot and that domain.
\<close>

definition accepted :: "'j world \<Rightarrow> config \<Rightarrow> string \<Rightarrow> bool" where
  "accepted w cfg u =
     ((case fst (resolveAndValidate w u) of Inl e \<Rightarrow> False | Inr ok \<Rightarrow> True)
      \<and> (proxyAllowedDomains cfg = []
          \<or> (case new_URL w u of
                None \<Rightarrow> False
              | Some p \<Rightarrow>
                  list_ex (\<lambda>domain. toLowerCase (hostname p) = toLowerCase domain
                             \<or> suffix (''.'' @ toLowerCase domain) (toLowerCase (hostname p)))
                    (proxyAllowedDomains cfg))))"

text \<open>
  The answer to the fetch numbered \<open>k\<close> of a call, made at \<open>u\<close> with the options \<open>i\<close>, is
  a redirect hop to \<open>target\<close>: a redirect status and a non-empty \<^verbatim>\<open>Location\<close>, which
  resolves against \<open>u\<close> to \<open>target\<close>.
\<close>

definition redirect_target :: "'j world \<Rightarrow> nat \<Rightarrow> string \<Rightarrow> fetch_init \<Rightarrow> string option" where
  "redirect_target w k u i =
     (case fetch w k u i of
        Rejected err \<Rightarrow> None
      | Fulfilled resp \<Rightarrow>
          if status resp \<in> set [301, 302, 303, 307, 308] then
            (case headers_get (headers resp) ''location'' of
               None \<Rightarrow> None
             | Some l \<Rightarrow> if l = [] then None else resolve_URL w l u)
          else None)"

text \<open>
  The answer to that fetch is the final response: a response whose status is not a
  redirect status, or which has no \<^verbatim>\<open>Location\<close> or an empty one.
\<close>

definition final_response :: "'j world \<Rightarrow> nat \<Rightarrow> string \<Rightarrow> fetch_init \<Rightarrow> response option" where
  "final_response w k u i =
     (case fetch w k u i of
        Rejected err \<Rightarrow> None
      | Fulfilled resp \<Rightarrow>
          if status resp \<in> set [301, 302, 303, 307, 308]
             \<and> (case headers_get (headers resp) ''location'' of None \<Rightarrow> False | Some l \<Rightarrow> l \<noteq> [])
          then None else Some resp)"

text \<open>The reads and the cancel among the events, in order.\<close>

definition reads :: "event list \<Rightarrow> event list" where
  "reads evs = filter (\<lambda>e. e = Read \<or> e = Cancel) evs"

section \<open>Example surroundings\<close>

text \<open>A resolver that knows one URL, whose host name is \<^verbatim>\<open>beef\<close>, and answers every A query.\<close>

definition w_beef :: resolver where
  "w_beef = \<lparr>new_URL = (\<lambda>s. if s = ''http://beef/'' then Some \<lparr>protocol = ''http:'', hostname = ''beef''\<rparr> else None),
     dns_resolve4 = (\<lambda>h. Some [''93.184.216.34'']), dns_resolve6 = (\<lambda>h. None)\<rparr>"

text \<open>
  A resolver that knows three URLs: a public site with two A records, a host name whose
  first A record is the metadata address, and the IPv6 loopback literal.
\<close>

definition w_sites :: resolver where
  "w_sites =
     \<lparr>new_URL = (\<lambda>s. if s = ''https://example.com/''
                       then Some \<lparr>protocol = ''https:'', hostname = ''example.com''\<rparr>
                     else if s = ''http://rebind.example/''
                       then Some \<lparr>protocol = ''http:'', hostname = ''rebind.example''\<rparr>
                     else if s = ''http://[::1]/''
                       then Some \<lparr>protocol = ''http:'', hostname = ''[::1]''\<rparr>
                     else None),
      dns_resolve4 = (\<lambda>h. if h = ''example.com'' then Some [''93.184.216.34'', ''10.0.0.1'']
                            else if h = ''rebind.example'' then Some [''169.254.169.254'', ''8.8.8.8'']
                            else None),
      dns_resolve6 = (\<lambda>h. None)\<rparr>"

text \<open>A URL parser that knows a public site and a private address.\<close>

definition site_URL :: "string \<Rightarrow> url option" where
  "site_URL s =
     (if s = ''https://example.com/'' then Some \<lparr>protocol = ''https:'', hostname = ''example.com''\<rparr>
      else if s = ''http://10.0.0.1/'' then Some \<lparr>protocol = ''http:'', hostname = ''10.0.0.1''\<rparr>
      else None)"

text \<open>
  The surroundings of the examples: the public site has one A record, a \<^verbatim>\<open>Location\<close> is an
  absolute URL, no body parses as JSON, and the answers to \<^verbatim>\<open>fetch\<close> are the
  parameter.
\<close>

definition w_fetch :: "(nat \<Rightarrow> string \<Rightarrow> fetch_init \<Rightarrow> fetch_result) \<Rightarrow> unit world" where
  "w_fetch f =
     \<lparr>new_URL = site_URL,
      dns_resolve4 = (\<lambda>h. if h = ''example.com'' then Some [''93.184.216.34''] else None),
      dns_resolve6 = (\<lambda>h. None),
      resolve_URL = (\<lambda>l b. Some l),
      fetch = f,
      JSON_stringify = (\<lambda>j. ''null''),
      JSON_parse = (\<lambda>s. None),
      TextDecoder_decode = (\<lambda>b. b)\<rparr>"

text \<open>An upstream that answers every fetch with a redirect to one location.\<close>

definition redirect_to :: "nat \<Rightarrow> string \<Rightarrow> nat \<Rightarrow> string \<Rightarrow> fetch_init \<Rightarrow> fetch_result" where
  "redirect_to st l n u i =
     Fulfilled \<lparr>status = st, statusText = ''Redirect'', headers = [(''location'', l)], body = None\<rparr>"

text \<open>A configuration with a cap of ten bytes, no allowlist and three redirects.\<close>

definition cfg0 :: config where
  "cfg0 = \<lparr>proxyMaxResponseSize = 10, proxyAllowedDomains = [], proxyMaxRedirects = 3\<rparr>"

text \<open>A request to post a body to the public site.\<close>

definition req0 :: "unit ProxyRequest" where
  "req0 = \<lparr>req_url = ''https://example.com/'', req_method = Some ''post'', req_body = Some (),
     req_contentType = None, req_accept = None, req_auth = None\<rparr>"

text \<open>An upstream that answers every fetch with one response.\<close>

definition answer_with :: "response \<Rightarrow> nat \<Rightarrow> string \<Rightarrow> fetch_init \<Rightarrow> fetch_result" where
  "answer_with resp n u i = Fulfilled resp"

text \<open>A response without a declared length whose third chunk passes a cap of ten bytes.\<close>

definition long_body :: response where
  "long_body = \<lparr>status = 200, statusText = ''OK'', headers = [(''x-a'', ''1'')],
     body = Some [Chunk ''abc'', Chunk ''defgh'', Chunk ''ijklm'', Chunk ''nopqr'']\<rparr>"

text \<open>
  A response with a header named \<^verbatim>\<open>__proto__\<close> and a body that is not JSON under a JSON
  content type.
\<close>

definition proto_header :: response where
  "proto_header = \<lparr>status = 200, statusText = ''OK'',
     headers = [(''__proto__'', ''x''), (''content-type'', ''application/json''), (''x-a'', ''1'')],
     body = Some [Chunk ''{a'']\<rparr>"

section \<open>Facts about the string and number primitives\<close>

lemma binexp_lower: assumes "0 < q" shows "2 powi (binexp q) \<le> q"
proof -
  obtain a b where ab: "quotient_of q = (a, b)" by (cases "quotient_of q")
  then have b: "0 < b" and q: "q = of_int a / of_int b"
    using quotient_of_denom_pos [OF ab] quotient_of_div [OF ab] by simp_all
  with assms have a: "0 < a" by (simp add: zero_less_divide_iff)
  define k where "k = bitlen a - bitlen b"
  show ?thesis
  proof (cases "2 powi k \<le> q")
    case True
    then show ?thesis by (simp add: binexp_def ab k_def)
  next
    case False
    have la: "(2::rat) powi (bitlen a - 1) \<le> of_int a"
    proof -
      have "bitlen a - 1 \<ge> 0" using a by (simp add: bitlen_alt_def)
      moreover have "(2::int) ^ nat (bitlen a - 1) \<le> a" using bitlen_bounds [OF a] by simp
      then have "(of_int ((2::int) ^ nat (bitlen a - 1)) :: rat) \<le> of_int a" by (simp only: of_int_le_iff)
      ultimately show ?thesis by (simp add: power_int_def)
    qed
    have ub: "(of_int b :: rat) \<le> 2 powi (bitlen b)"
    proof -
      have "bitlen b \<ge> 0" using b by (simp add: bitlen_alt_def)
      moreover have "b < (2::int) ^ nat (bitlen b)" using bitlen_bounds [OF b] by simp
      then have "(of_int b :: rat) < of_int ((2::int) ^ nat (bitlen b))" by (simp only: of_int_less_iff)
      ultimately show ?thesis by (simp add: power_int_def)
    qed
    have "(2::rat) powi (k - 1) = 2 powi (bitlen a - 1) / 2 powi (bitlen b)"
      by (simp add: k_def power_int_diff)
    also have "\<dots> \<le> of_int a / 2 powi (bitlen b)"
      using la by (simp add: divide_right_mono)
    also have "\<dots> \<le> of_int a / of_int b"
      using ub a b by (simp add: divide_left_mono)
    finally have "2 powi (k - 1) \<le> q" by (simp add: q)
    with False show ?thesis by (simp add: binexp_def ab k_def)
  qed
qed

lemma binexp_upper: assumes "0 < q" shows "q < 2 powi (binexp q + 1)"
proof -
  obtain a b where ab: "quotient_of q = (a, b)" by (cases "quotient_of q")
  then have b: "0 < b" and q: "q = of_int a / of_int b"
    using quotient_of_denom_pos [OF ab] quotient_of_div [OF ab] by simp_all
  with assms have a: "0 < a" by (simp add: zero_less_divide_iff)
  define k where "k = bitlen a - bitlen b"
  show ?thesis
  proof (cases "2 powi k \<le> q")
    case False
    then show ?thesis by (simp add: binexp_def ab k_def)
  next
    case True
    have ua: "of_int a < (2::rat) powi (bitlen a)"
    proof -
      have "bitlen a \<ge> 0" using a by (simp add: bitlen_alt_def)
      moreover have "a < (2::int) ^ nat (bitlen a)" using bitlen_bounds [OF a] by simp
      then have "(of_int a :: rat) < of_int ((2::int) ^ nat (bitlen a))" by (simp only: of_int_less_iff)
      ultimately show ?thesis by (simp add: power_int_def)
    qed
    have lb: "(2::rat) powi (bitlen b - 1) \<le> of_int b"
    proof -
      have "bitlen b - 1 \<ge> 0" using b by (simp add: bitlen_alt_def)
      moreover have "(2::int) ^ nat (bitlen b - 1) \<le> b" using bitlen_bounds [OF b] by simp
      then have "(of_int ((2::int) ^ nat (bitlen b - 1)) :: rat) \<le> of_int b" by (simp only: of_int_le_iff)
      ultimately show ?thesis by (simp add: power_int_def)
    qed
    have "q = of_int a / of_int b" by (rule q)
    also have "\<dots> < 2 powi (bitlen a) / of_int b"
      using ua b by (simp add: divide_strict_right_mono)
    also have "\<dots> \<le> 2 powi (bitlen a) / 2 powi (bitlen b - 1)"
      using lb by (intro frac_le) simp_all
    also have "\<dots> = 2 powi (k + 1)"
    proof -
      have e: "bitlen a - (bitlen b - 1) = k + 1" by (simp add: k_def)
      have "(2::rat) powi (bitlen a) / 2 powi (bitlen b - 1) = 2 powi (bitlen a - (bitlen b - 1))"
        by (rule power_int_diff [symmetric]) simp
      then show ?thesis unfolding e .
    qed
    finally show ?thesis using True by (simp add: binexp_def ab k_def)
  qed
qed

lemma powi2_less_D: "(2::rat) powi m < 2 powi n \<Longrightarrow> m < n"
  using power_int_increasing [of n m "2::rat"] by (cases "m < n") auto

lemma binexp_less: "0 < q \<Longrightarrow> q < 2 powi K \<Longrightarrow> binexp q < K"
proof -
  assume q: "0 < q" and "q < 2 powi K"
  with binexp_lower [OF q] have "(2::rat) powi (binexp q) < 2 powi K" by simp
  then show ?thesis by (rule powi2_less_D)
qed

lemma binexp_ge: "0 < q \<Longrightarrow> 2 powi K \<le> q \<Longrightarrow> K \<le> binexp q"
proof -
  assume q: "0 < q" and "2 powi K \<le> q"
  with binexp_upper [OF q] have "(2::rat) powi K < 2 powi (binexp q + 1)" by simp
  then have "K < binexp q + 1" by (rule powi2_less_D)
  then show ?thesis by simp
qed

lemma roundTiesToEven_of_int [simp]: "roundTiesToEven (of_int z) = z"
  by (simp add: roundTiesToEven_def)

lemma roundTiesToEven_ge: "of_int z \<le> x \<Longrightarrow> z \<le> roundTiesToEven x"
proof -
  assume "of_int z \<le> x"
  then have "z \<le> \<lfloor>x\<rfloor>" by (simp add: le_floor_iff)
  moreover have "\<lfloor>x\<rfloor> \<le> roundTiesToEven x" by (simp add: roundTiesToEven_def Let_def)
  ultimately show ?thesis by simp
qed


lemma round_double_exact_pos:
  assumes m: "0 < m" "m < 2 ^ 53" and k: "- 1074 \<le> k" "k \<le> 971"
  shows "round_double (of_int m * 2 powi k) = Fin (of_int m * 2 powi k)"
proof -
  define q :: rat where "q = of_int m * 2 powi k"
  have qpos: "0 < q" using m by (simp add: q_def)
  have "of_int m < (2::rat) ^ 53" using m(2) by (metis of_int_less_iff of_int_numeral of_int_power)
  then have "q < 2 ^ 53 * 2 powi k" by (simp add: q_def)
  also have "\<dots> = 2 powi (k + 53)" by (simp add: power_int_add)
  finally have qlt: "q < 2 powi (k + 53)" .
  define e where "e = max (binexp q) (- 1022)"
  have ek: "e - 52 \<le> k" using binexp_less [OF qpos qlt] k by (simp add: e_def)
  define z where "z = m * 2 ^ nat (k - (e - 52))"
  have "q / 2 powi (e - 52) = of_int m * 2 powi (k - (e - 52))"
    by (simp add: q_def power_int_diff)
  also have "\<dots> = of_int z" using ek by (simp add: z_def power_int_def)
  finally have sc: "q / 2 powi (e - 52) = of_int z" .
  have unscale: "of_int z * 2 powi (e - 52) = q"
    using sc by (simp add: field_simps)
  have "2 powi (k + 53) \<le> (2::rat) powi 1024" using k by (intro power_int_increasing) simp_all
  with qlt have small: "\<not> 2 powi 1024 \<le> q" by simp
  show ?thesis
    using qpos small by (simp add: round_double_def Let_def e_def [symmetric] sc unscale q_def [symmetric])
qed

lemma round_double_exact:
  assumes m: "\<bar>m\<bar> < 2 ^ 53" and k: "- 1074 \<le> k" "k \<le> 971"
  shows "round_double (of_int m * 2 powi k) = Fin (of_int m * 2 powi k)"
proof (cases m "0::int" rule: linorder_cases)
  case equal
  then show ?thesis by (simp add: round_double_def)
next
  case greater
  with m show ?thesis by (intro round_double_exact_pos k) simp_all
next
  case less
  define n where "n = - m"
  have n: "0 < n" "n < 2 ^ 53" using less m by (simp_all add: n_def)
  have pos: "round_double (of_int n * 2 powi k) = Fin (of_int n * 2 powi k)"
    by (rule round_double_exact_pos [OF n k])
  have qneg: "of_int m * (2::rat) powi k < 0" using less by (simp add: mult_neg_pos)
  have abs: "\<bar>of_int m * (2::rat) powi k\<bar> = of_int n * 2 powi k"
    using less by (simp add: n_def abs_mult)
  have npos: "0 < of_int n * (2::rat) powi k" using n by simp
  from pos npos show ?thesis
    using qneg abs
    by (simp add: round_double_def Let_def n_def split: if_splits)
qed

lemma round_double_of_nat: "n < 2 ^ 53 \<Longrightarrow> round_double (of_nat n) = Fin (of_nat n)"
  using round_double_exact [of "int n" 0] by (simp add: of_nat_less_iff [of n "2 ^ 53", where ?'a = int, symmetric])

lemma round_double_half: "round_double (1 / 2) = Fin (1 / 2)"
  using round_double_exact [of 1 "- 1"] by simp

lemma round_double_numeral [simp]:
  "numeral n < (2::nat) ^ 53 \<Longrightarrow> round_double (numeral n) = Fin (numeral n)"
  using round_double_of_nat [of "numeral n"] by simp

lemma round_double_0 [simp]: "round_double 0 = Fin 0"
  by (simp add: round_double_def)

lemma round_double_1 [simp]: "round_double 1 = Fin 1"
  using round_double_of_nat [of 1] by simp

lemmas number_defs = Number_def trim_def isStrWhiteSpaceChar_def NonDecimalIntegerLiteral_def
  StrDecimalLiteral_def StrUnsignedDecimalLiteral_def isDecimalDigit_def exponentPart_def
  decimalDigits_def radixValue_def digitValue_def isHexDigit_def

lemmas parseInt_defs = parseInt_def isStrWhiteSpaceChar_def isRadixDigit_def isHexDigit_def
  radixValue_def digitValue_def slice_def

lemma js_cmp_Fin [simp]:
  "js_le (Fin x) (Fin y) = (x \<le> y)"
  "js_ge (Fin x) (Fin y) = (y \<le> x)"
  "js_gt (Fin x) (Fin y) = (y < x)"
  by (auto simp: js_le_def js_ge_def js_gt_def)

lemma digit_char:
  "isDecimalDigit c \<Longrightarrow> \<not> isStrWhiteSpaceChar c \<and> c \<noteq> CHR ''+'' \<and> c \<noteq> CHR ''-'' \<and> c \<noteq> CHR ''.''
     \<and> c \<noteq> CHR '':'' \<and> c \<noteq> CHR ''I'' \<and> c \<noteq> CHR ''x'' \<and> c \<noteq> CHR ''X'' \<and> c \<noteq> CHR ''o''
     \<and> c \<noteq> CHR ''O'' \<and> c \<noteq> CHR ''b'' \<and> c \<noteq> CHR ''B''"
  by (auto simp: isDecimalDigit_def isStrWhiteSpaceChar_def)

lemma digits_trim: assumes "list_all isDecimalDigit ds" shows "trim ds = ds"
proof (cases ds)
  case Nil
  then show ?thesis by (simp add: trim_def)
next
  case (Cons c r)
  with assms have h: "\<not> isStrWhiteSpaceChar (hd ds)" using digit_char by simp
  from Cons assms have "isDecimalDigit (last ds)" by (metis last_in_set list.distinct(1) list_all_iff)
  then have "\<not> isStrWhiteSpaceChar (last ds)" using digit_char by blast
  moreover have "hd (rev ds) = last ds" using Cons by (simp add: hd_rev)
  ultimately have l: "\<not> isStrWhiteSpaceChar (hd (rev ds))" by metis
  have d1: "dropWhile isStrWhiteSpaceChar ds = ds" using h Cons by simp
  have d2: "dropWhile isStrWhiteSpaceChar (rev ds) = rev ds"
    using l Cons by (cases "rev ds") simp_all
  show ?thesis by (simp add: trim_def d1 d2)
qed

lemma digits_NonDecimal:
  assumes "list_all isDecimalDigit ds"
  shows "NonDecimalIntegerLiteral ds = None"
proof (cases ds)
  case Nil
  then show ?thesis by (simp add: NonDecimalIntegerLiteral_def)
next
  case (Cons z r)
  show ?thesis
  proof (cases r)
    case Nil
    with Cons show ?thesis by (simp add: NonDecimalIntegerLiteral_def)
  next
    case (Cons x r')
    with \<open>ds = z # r\<close> assms have "isDecimalDigit x" by simp
    note x = digit_char [OF this]
    from x \<open>ds = z # r\<close> Cons show ?thesis by (simp add: NonDecimalIntegerLiteral_def)
  qed
qed

lemma digits_not_Infinity: "list_all isDecimalDigit ds \<Longrightarrow> ds \<noteq> ''Infinity''"
proof -
  have "\<not> list_all isDecimalDigit ''Infinity''" by (simp add: isDecimalDigit_def)
  moreover assume "list_all isDecimalDigit ds"
  ultimately show ?thesis by blast
qed

lemma Number_digits:
  assumes ne: "ds \<noteq> []" and dg: "list_all isDecimalDigit ds" and sm: "radixValue 10 ds < 2 ^ 53"
  shows "Number ds = Fin (of_nat (radixValue 10 ds))"
proof -
  obtain c r where ds: "ds = c # r" using ne by (cases ds) auto
  with dg have c: "c \<noteq> CHR ''+''" "c \<noteq> CHR ''-''" using digit_char by auto
  have tw: "takeWhile isDecimalDigit ds = ds" "dropWhile isDecimalDigit ds = []"
    using dg by (simp_all add: list_all_iff)
  have "StrUnsignedDecimalLiteral ds = round_double (of_nat (radixValue 10 ds))"
    using ne digits_not_Infinity [OF dg]
    by (simp add: StrUnsignedDecimalLiteral_def tw exponentPart_def)
  then have "StrDecimalLiteral ds = Fin (of_nat (radixValue 10 ds))"
    using c ds round_double_of_nat [OF sm] by (simp add: StrDecimalLiteral_def)
  then show ?thesis
    using ne by (simp add: Number_def digits_trim [OF dg] digits_NonDecimal [OF dg])
qed

lemma stripPrefix_single: "stripPrefix [c] s = (case s of [] \<Rightarrow> None | x # xs \<Rightarrow> if c = x then Some xs else None)"
  by (cases s) auto

lemma split_str_Nil: "sep \<noteq> [] \<Longrightarrow> split_str [] sep = [[]]"
  by (cases sep) (simp_all add: split_str.simps)

lemma split_str_no_sep: "c \<notin> set s \<Longrightarrow> split_str s [c] = [s]"
proof (induction s)
  case Nil
  then show ?case by (simp add: split_str_Nil)
next
  case (Cons x xs)
  then show ?case by (subst split_str.simps) (simp add: stripPrefix_single)
qed

lemma split_str_sep: "c \<notin> set a \<Longrightarrow> split_str (a @ c # r) [c] = a # split_str r [c]"
proof (induction a)
  case Nil
  then show ?case by (subst split_str.simps) simp
next
  case (Cons x xs)
  then show ?case by (subst split_str.simps) (simp add: stripPrefix_single)
qed

lemma includes_str_single: "includes_str s [c] = (c \<in> set s)"
  by (induction s) auto

lemma isHexDigit_lowerChar: "isHexDigit c \<Longrightarrow> isHexDigit (lowerChar c)"
  by (auto simp: isHexDigit_def lowerChar_def char_of_def bit_Suc_0_iff)

lemma hex_toLowerCase: "list_all isHexDigit h \<Longrightarrow> list_all isHexDigit (toLowerCase h)"
  by (induction h) (auto simp: toLowerCase_def isHexDigit_lowerChar)

lemma not_blocked_iff:
  "t \<noteq> ''localhost'' \<Longrightarrow> t \<noteq> ''metadata.google.internal'' \<Longrightarrow> t \<noteq> ''metadata.goog''
     \<Longrightarrow> t \<notin> set BLOCKED_HOSTNAMES"
  unfolding BLOCKED_HOSTNAMES_def by (simp only: list.set insert_iff empty_iff) blast

lemma hex_not_blocked: "list_all isHexDigit h \<Longrightarrow> toLowerCase h \<notin> set BLOCKED_HOSTNAMES"
proof -
  assume "list_all isHexDigit h"
  then have hex: "list_all isHexDigit (toLowerCase h)"
    by (rule hex_toLowerCase)
  have neq: "t \<noteq> s" if "\<not> list_all isHexDigit s" and "list_all isHexDigit t" for s t :: string
    using that by blast
  have n: "\<not> list_all isHexDigit ''localhost''"
    "\<not> list_all isHexDigit ''metadata.google.internal''"
    "\<not> list_all isHexDigit ''metadata.goog''"
    by (simp_all add: isHexDigit_def)
  show ?thesis
    by (rule not_blocked_iff [OF neq [OF n(1) hex] neq [OF n(2) hex] neq [OF n(3) hex]])
qed

lemma hex_char: "isHexDigit c \<Longrightarrow> c \<noteq> CHR ''.'' \<and> c \<noteq> CHR '':'' \<and> c \<noteq> CHR ''['' \<and> c \<noteq> CHR '']''"
  by (auto simp: isHexDigit_def)

lemma hex_no_special: "list_all isHexDigit h \<Longrightarrow> CHR ''.'' \<notin> set h \<and> CHR '':'' \<notin> set h \<and> CHR ''['' \<notin> set h \<and> CHR '']'' \<notin> set h"
  unfolding list_all_iff using hex_char by blast

lemma hex_stripBrackets: "list_all isHexDigit h \<Longrightarrow> stripBrackets h = h"
proof -
  assume h: "list_all isHexDigit h"
  show ?thesis
  proof (cases h)
    case Nil then show ?thesis by (simp add: stripBrackets_def)
  next
    case (Cons c r)
    with h have "c \<noteq> CHR ''[''" "last h \<noteq> CHR '']''"
      using hex_no_special [OF h] last_in_set [of h] by auto
    with Cons show ?thesis by (simp add: stripBrackets_def)
  qed
qed

lemma isPrivateIPv4_short: "CHR ''.'' \<notin> set ip \<Longrightarrow> isPrivateIPv4 ip"
  by (simp add: isPrivateIPv4_def split_str_no_sep)

section \<open>Claims about the address classifier\<close>

lemma Number_octet: "isOctet s \<Longrightarrow> Number s = Fin (of_nat (radixValue 10 s))"
  by (rule Number_digits) (simp_all add: isOctet_def)

lemma octet_no_sep: "isOctet s \<Longrightarrow> CHR ''.'' \<notin> set s \<and> CHR '':'' \<notin> set s"
  using digit_char by (auto simp: isOctet_def list_all_iff)

lemma split_dotted_quad:
  assumes "isOctet a" "isOctet b" "isOctet c" "isOctet d"
  shows "split_str (a @ ''.'' @ b @ ''.'' @ c @ ''.'' @ d) ''.'' = [a, b, c, d]"
proof -
  have "split_str (a @ CHR ''.'' # (b @ CHR ''.'' # (c @ CHR ''.'' # d))) [CHR ''.'']
          = a # b # c # [d]"
    using assms octet_no_sep by (simp add: split_str_sep split_str_no_sep)
  then show ?thesis by simp
qed

lemma isPrivateIPv4_dotted_quad:
  assumes "isOctet a" "isOctet b" "isOctet c" "isOctet d"
  shows "isPrivateIPv4 (a @ ''.'' @ b @ ''.'' @ c @ ''.'' @ d)
           = (radixValue 10 a = 127 \<or> radixValue 10 a = 10
              \<or> (radixValue 10 a = 172 \<and> 16 \<le> radixValue 10 b \<and> radixValue 10 b \<le> 31)
              \<or> (radixValue 10 a = 192 \<and> radixValue 10 b = 168)
              \<or> (radixValue 10 a = 169 \<and> radixValue 10 b = 254)
              \<or> radixValue 10 a = 0)"
proof -
  have le: "radixValue 10 a \<le> 255" "radixValue 10 b \<le> 255" "radixValue 10 c \<le> 255" "radixValue 10 d \<le> 255"
    using assms by (simp_all add: isOctet_def)
  show ?thesis
    unfolding isPrivateIPv4_def split_dotted_quad [OF assms]
    using le
    by (simp add: Number_octet assms isNaN_def js_gt_def js_ge_def js_le_def Let_def) (auto simp: le_less)
qed

lemma isPrivateIP_dotted_quad:
  assumes "isOctet a" "isOctet b" "isOctet c" "isOctet d"
  shows "isPrivateIP (a @ ''.'' @ b @ ''.'' @ c @ ''.'' @ d)
           = Inr (radixValue 10 a = 127 \<or> radixValue 10 a = 10
              \<or> (radixValue 10 a = 172 \<and> 16 \<le> radixValue 10 b \<and> radixValue 10 b \<le> 31)
              \<or> (radixValue 10 a = 192 \<and> radixValue 10 b = 168)
              \<or> (radixValue 10 a = 169 \<and> radixValue 10 b = 254)
              \<or> radixValue 10 a = 0)"
proof -
  let ?ip = "a @ ''.'' @ b @ ''.'' @ c @ ''.'' @ d"
  have nc: "\<not> includes_str ?ip '':''"
    using assms octet_no_sep by (simp add: includes_str_single)
  show ?thesis
  proof (cases "?ip = ''169.254.169.254''")
    case False
    then show ?thesis
      by (simp only: isPrivateIP_def nc if_False isPrivateIPv4_dotted_quad [OF assms])
  next
    case True
    have "split_str ''169.254.169.254'' ''.'' = [''169'', ''254'', ''169'', ''254'']" by code_simp
    with True split_dotted_quad [OF assms] have "a = ''169''" "b = ''254''" by simp_all
    then have "radixValue 10 a = 169" "radixValue 10 b = 254"
      by (simp_all add: radixValue_def digitValue_def)
    with True show ?thesis by (simp only: isPrivateIP_def if_True) simp
  qed
qed

lemma dotless_not_metadata: "\<not> includes_str ip ''.'' \<Longrightarrow> ip \<noteq> ''169.254.169.254''"
proof -
  have "includes_str ''169.254.169.254'' ''.''" by code_simp
  moreover assume "\<not> includes_str ip ''.''"
  ultimately show ?thesis by blast
qed

lemma isPrivateIP_first_segment:
  assumes colon: "includes_str ip '':''" and nodot: "\<not> includes_str ip ''.''"
    and norm: "normalizeIPv6 ip = Inr n"
    and seg: "parseInt (slice n 0 4) 16 = Fin f"
    and range: "(64512 \<le> f \<and> f \<le> 65023) \<or> (65152 \<le> f \<and> f \<le> 65215)"
  shows "isPrivateIP ip = Inr True"
proof -
  have z: "parseInt ''0000'' 16 = Fin 0" by (simp add: parseInt_defs)
  have t: "slice n 0 4 \<noteq> ''0000''" using seg range z by auto
  have "\<not> startsWith n ''0000:0000:0000:0000:0000:ffff:''"
  proof
    assume "startsWith n ''0000:0000:0000:0000:0000:ffff:''"
    then obtain r where "n = ''0000:0000:0000:0000:0000:ffff:'' @ r"
      unfolding startsWith_def prefix_def by blast
    then have "slice n 0 4 = ''0000''" by (simp add: slice_def)
    with t show False by simp
  qed
  moreover have "n \<noteq> ''0000:0000:0000:0000:0000:0000:0000:0001''"
  proof
    assume "n = ''0000:0000:0000:0000:0000:0000:0000:0001''"
    then have "slice n 0 4 = ''0000''" by (simp add: slice_def)
    with t show False by simp
  qed
  ultimately have "isPrivateIPv6 ip = Inr True"
    using nodot norm seg range
    by (auto simp: isPrivateIPv6_def Let_def)
  then show ?thesis
    using colon dotless_not_metadata [OF nodot] by (simp add: isPrivateIP_def)
qed

lemma isPrivateIP_mapped_dotted:
  assumes "includes_str ip '':''" "includes_str ip ''.''" "match_mapped ip = Some m"
  shows "isPrivateIP ip = Inr (isPrivateIPv4 m)"
proof -
  have "ip \<noteq> ''169.254.169.254''"
  proof -
    have "\<not> includes_str ''169.254.169.254'' '':''" by code_simp
    with assms(1) show ?thesis by blast
  qed
  then show ?thesis using assms by (simp add: isPrivateIP_def isPrivateIPv6_def)
qed

lemma isPrivateIP_loopback:
  assumes "includes_str ip '':''" "\<not> includes_str ip ''.''"
    and "normalizeIPv6 ip = Inr ''0000:0000:0000:0000:0000:0000:0000:0001''"
  shows "isPrivateIP ip = Inr True"
  using assms dotless_not_metadata [OF assms(2)] by (simp add: isPrivateIP_def isPrivateIPv6_def)

lemma isPrivateIP_mapped_hex:
  assumes "includes_str ip '':''" and nodot: "\<not> includes_str ip ''.''"
    and "normalizeIPv6 ip = Inr n"
    and "startsWith n ''0000:0000:0000:0000:0000:ffff:''"
    and "split_str (sliceLast n 9) '':'' = [hex1, hex2]"
  shows "isPrivateIP ip
           = Inr (isPrivateIPv4 (NumberToString (parseInt (slice hex1 0 2) 16) @ ''.''
                    @ NumberToString (parseInt (slice hex1 2 4) 16) @ ''.''
                    @ NumberToString (parseInt (slice hex2 0 2) 16) @ ''.''
                    @ NumberToString (parseInt (slice hex2 2 4) 16)))"
proof -
  have "n \<noteq> ''0000:0000:0000:0000:0000:0000:0000:0001''"
  proof
    assume "n = ''0000:0000:0000:0000:0000:0000:0000:0001''"
    moreover have "\<not> startsWith ''0000:0000:0000:0000:0000:0000:0000:0001'' ''0000:0000:0000:0000:0000:ffff:''"
      by (simp add: startsWith_def)
    ultimately show False using assms(4) by blast
  qed
  then show ?thesis
    using assms dotless_not_metadata [OF nodot]
    by (simp add: isPrivateIP_def isPrivateIPv6_def Let_def)
qed

lemmas octet_defs = isOctet_def isDecimalDigit_def radixValue_def digitValue_def

lemma ipv4_examples:
  "isPrivateIP ''8.8.8.8'' = Inr False"
  "isPrivateIP ''1.1.1.1'' = Inr False"
  "isPrivateIP ''172.32.0.1'' = Inr False"
  "isPrivateIP ''127.0.0.1'' = Inr True"
  "isPrivateIP ''172.31.255.255'' = Inr True"
  using isPrivateIP_dotted_quad [of "''8''" "''8''" "''8''" "''8''"]
        isPrivateIP_dotted_quad [of "''1''" "''1''" "''1''" "''1''"]
        isPrivateIP_dotted_quad [of "''172''" "''32''" "''0''" "''1''"]
        isPrivateIP_dotted_quad [of "''127''" "''0''" "''0''" "''1''"]
        isPrivateIP_dotted_quad [of "''172''" "''31''" "''255''" "''255''"]
  by (simp_all add: octet_defs)

lemma ipv6_examples:
  "isPrivateIP ''::1'' = Inr True"
  "isPrivateIP ''fc00::1'' = Inr True"
  "isPrivateIP ''fd00::1'' = Inr True"
  "isPrivateIP ''fe80::1'' = Inr True"
proof -
  have c: "includes_str ''::1'' '':''" "includes_str ''fc00::1'' '':''"
    "includes_str ''fd00::1'' '':''" "includes_str ''fe80::1'' '':''" by code_simp+
  have d: "\<not> includes_str ''::1'' ''.''" "\<not> includes_str ''fc00::1'' ''.''"
    "\<not> includes_str ''fd00::1'' ''.''" "\<not> includes_str ''fe80::1'' ''.''" by code_simp+
  have n: "normalizeIPv6 ''::1'' = Inr ''0000:0000:0000:0000:0000:0000:0000:0001''"
    "normalizeIPv6 ''fc00::1'' = Inr ''fc00:0000:0000:0000:0000:0000:0000:0001''"
    "normalizeIPv6 ''fd00::1'' = Inr ''fd00:0000:0000:0000:0000:0000:0000:0001''"
    "normalizeIPv6 ''fe80::1'' = Inr ''fe80:0000:0000:0000:0000:0000:0000:0001''" by code_simp+
  have p: "parseInt (slice ''fc00:0000:0000:0000:0000:0000:0000:0001'' 0 4) 16 = Fin 64512"
    "parseInt (slice ''fd00:0000:0000:0000:0000:0000:0000:0001'' 0 4) 16 = Fin 64768"
    "parseInt (slice ''fe80:0000:0000:0000:0000:0000:0000:0001'' 0 4) 16 = Fin 65152"
    by (simp_all add: parseInt_defs)
  show "isPrivateIP ''::1'' = Inr True"
    by (rule isPrivateIP_loopback [OF c(1) d(1) n(1)])
  show "isPrivateIP ''fc00::1'' = Inr True"
    by (rule isPrivateIP_first_segment [OF c(2) d(2) n(2) p(1)]) simp
  show "isPrivateIP ''fd00::1'' = Inr True"
    by (rule isPrivateIP_first_segment [OF c(3) d(3) n(3) p(2)]) simp
  show "isPrivateIP ''fe80::1'' = Inr True"
    by (rule isPrivateIP_first_segment [OF c(4) d(4) n(4) p(3)]) simp
qed

lemma isPrivateIPv4_examples:
  "isPrivateIPv4 ''10.0.0.1''" "isPrivateIPv4 ''192.168.1.1''" "isPrivateIPv4 ''169.254.169.254''"
  "\<not> isPrivateIPv4 ''8.8.8.8''"
  using isPrivateIPv4_dotted_quad [of "''10''" "''0''" "''0''" "''1''"]
        isPrivateIPv4_dotted_quad [of "''192''" "''168''" "''1''" "''1''"]
        isPrivateIPv4_dotted_quad [of "''169''" "''254''" "''169''" "''254''"]
        isPrivateIPv4_dotted_quad [of "''8''" "''8''" "''8''" "''8''"]
  by (simp_all add: octet_defs)

lemma mapped_examples:
  "isPrivateIP ''::ffff:10.0.0.1'' = Inr True"
  "isPrivateIP ''::ffff:192.168.1.1'' = Inr True"
  "isPrivateIP ''::ffff:169.254.169.254'' = Inr True"
  "isPrivateIP ''::ffff:8.8.8.8'' = Inr False"
  "isPrivateIP ''0000:0000:0000:0000:0000:ffff:0a00:0001'' = Inr True"
  "isPrivateIP ''::ffff:808:808'' = Inr False"
proof -
  have c: "includes_str ''::ffff:10.0.0.1'' '':''" "includes_str ''::ffff:192.168.1.1'' '':''"
    "includes_str ''::ffff:169.254.169.254'' '':''" "includes_str ''::ffff:8.8.8.8'' '':''"
    "includes_str ''0000:0000:0000:0000:0000:ffff:0a00:0001'' '':''"
    "includes_str ''::ffff:808:808'' '':''" by code_simp+
  have d: "includes_str ''::ffff:10.0.0.1'' ''.''" "includes_str ''::ffff:192.168.1.1'' ''.''"
    "includes_str ''::ffff:169.254.169.254'' ''.''" "includes_str ''::ffff:8.8.8.8'' ''.''"
    "\<not> includes_str ''0000:0000:0000:0000:0000:ffff:0a00:0001'' ''.''"
    "\<not> includes_str ''::ffff:808:808'' ''.''" by code_simp+
  have m: "match_mapped ''::ffff:10.0.0.1'' = Some ''10.0.0.1''"
    "match_mapped ''::ffff:192.168.1.1'' = Some ''192.168.1.1''"
    "match_mapped ''::ffff:169.254.169.254'' = Some ''169.254.169.254''"
    "match_mapped ''::ffff:8.8.8.8'' = Some ''8.8.8.8''" by code_simp+
  have n: "normalizeIPv6 ''0000:0000:0000:0000:0000:ffff:0a00:0001'' = Inr ''0000:0000:0000:0000:0000:ffff:0a00:0001''"
    "normalizeIPv6 ''::ffff:808:808'' = Inr ''0000:0000:0000:0000:0000:ffff:0808:0808''" by code_simp+
  have s: "startsWith ''0000:0000:0000:0000:0000:ffff:0a00:0001'' ''0000:0000:0000:0000:0000:ffff:''"
    "startsWith ''0000:0000:0000:0000:0000:ffff:0808:0808'' ''0000:0000:0000:0000:0000:ffff:''"
    by (simp_all add: startsWith_def)
  have l: "split_str (sliceLast ''0000:0000:0000:0000:0000:ffff:0a00:0001'' 9) '':'' = [''0a00'', ''0001'']"
    "split_str (sliceLast ''0000:0000:0000:0000:0000:ffff:0808:0808'' 9) '':'' = [''0808'', ''0808'']"
    by code_simp+
  have p: "NumberToString (parseInt (slice ''0a00'' 0 2) 16) = ''10''"
    "NumberToString (parseInt (slice ''0a00'' 2 4) 16) = ''0''"
    "NumberToString (parseInt (slice ''0001'' 0 2) 16) = ''0''"
    "NumberToString (parseInt (slice ''0001'' 2 4) 16) = ''1''"
    "NumberToString (parseInt (slice ''0808'' 0 2) 16) = ''8''"
    "NumberToString (parseInt (slice ''0808'' 2 4) 16) = ''8''"
    by (simp_all add: parseInt_defs NumberToString_def showInt_def showNat.simps)
  show "isPrivateIP ''::ffff:10.0.0.1'' = Inr True"
    using isPrivateIP_mapped_dotted [OF c(1) d(1) m(1)] isPrivateIPv4_examples by simp
  show "isPrivateIP ''::ffff:192.168.1.1'' = Inr True"
    using isPrivateIP_mapped_dotted [OF c(2) d(2) m(2)] isPrivateIPv4_examples by simp
  show "isPrivateIP ''::ffff:169.254.169.254'' = Inr True"
    using isPrivateIP_mapped_dotted [OF c(3) d(3) m(3)] isPrivateIPv4_examples by simp
  show "isPrivateIP ''::ffff:8.8.8.8'' = Inr False"
    using isPrivateIP_mapped_dotted [OF c(4) d(4) m(4)] isPrivateIPv4_examples by simp
  show "isPrivateIP ''0000:0000:0000:0000:0000:ffff:0a00:0001'' = Inr True"
    using isPrivateIP_mapped_hex [OF c(5) d(5) n(1) s(1) l(1)] isPrivateIPv4_examples
    by (simp add: p)
  show "isPrivateIP ''::ffff:808:808'' = Inr False"
    using isPrivateIP_mapped_hex [OF c(6) d(6) n(2) s(2) l(2)] isPrivateIPv4_examples
    by (simp add: p)
qed

text \<open>
  Claim C1. Every dotted quad in a private range is classified private, 8.8.8.8, 1.1.1.1
  and 172.32.0.1 are not (\<open>isPrivateIP_dotted_quad\<close>, \<open>ipv4_examples\<close>). The last part of
  the claim, that a colon-free string which does not parse into four octets is classified
  private, fails: the validity test reads each piece with \<^verbatim>\<open>Number\<close> and accepts any
  Number from 0 to 255, so \<^verbatim>\<open>5e-1.2.3.4\<close>, whose first piece is one half, passes it
  and is classified public.
\<close>

theorem isPrivateIP_fraction_public:
  "map Number (split_str ''5e-1.2.3.4'' ''.'') = [Fin (1 / 2), Fin 2, Fin 3, Fin 4]
   \<and> isPrivateIP ''5e-1.2.3.4'' = Inr False"
proof -
  have sp: "split_str ''5e-1.2.3.4'' ''.'' = [''5e-1'', ''2'', ''3'', ''4'']" by code_simp
  have inc: "\<not> includes_str ''5e-1.2.3.4'' '':''" by code_simp
  have n: "Number ''5e-1'' = Fin (1 / 2)" "Number ''2'' = Fin 2" "Number ''3'' = Fin 3" "Number ''4'' = Fin 4"
    by (simp_all add: number_defs round_double_half)
  have "isPrivateIPv4 ''5e-1.2.3.4'' = False"
    by (simp add: isPrivateIPv4_def sp n isNaN_def)
  then have "isPrivateIP ''5e-1.2.3.4'' = Inr False"
    unfolding isPrivateIP_def by (simp only: inc if_False) simp
  then show ?thesis by (simp add: sp n)
qed

text \<open>
  Claim C2. The loopback, unique-local and link-local examples and the IPv4-mapped
  examples, dotted and hexadecimal, are classified as the claim says (\<open>ipv6_examples\<close>,
  \<open>mapped_examples\<close>), and an address written without a dot whose first segment lies in
  fc00 to fdff or fe80 to febf is private (\<open>isPrivateIP_first_segment\<close>). The claim fails
  for an address with a dotted tail: the pattern for IPv4-mapped addresses is not anchored
  at the start, so the unique-local address \<^verbatim>\<open>fc00::ffff:8.8.8.8\<close> and the link-local
  address \<^verbatim>\<open>fe80::ffff:8.8.8.8\<close> are taken for the mapped form of 8.8.8.8 and classified
  public.
\<close>

theorem isPrivateIP_unanchored_mapped:
  "match_mapped ''fc00::ffff:8.8.8.8'' = Some ''8.8.8.8''
   \<and> isPrivateIP ''fc00::ffff:8.8.8.8'' = Inr False
   \<and> isPrivateIP ''fe80::ffff:8.8.8.8'' = Inr False"
proof -
  have c: "includes_str ''fc00::ffff:8.8.8.8'' '':''" "includes_str ''fe80::ffff:8.8.8.8'' '':''"
    by code_simp+
  have d: "includes_str ''fc00::ffff:8.8.8.8'' ''.''" "includes_str ''fe80::ffff:8.8.8.8'' ''.''"
    by code_simp+
  have m: "match_mapped ''fc00::ffff:8.8.8.8'' = Some ''8.8.8.8''"
    "match_mapped ''fe80::ffff:8.8.8.8'' = Some ''8.8.8.8''" by code_simp+
  show ?thesis
    using isPrivateIP_mapped_dotted [OF c(1) d(1) m(1)] isPrivateIP_mapped_dotted [OF c(2) d(2) m(2)]
      isPrivateIPv4_examples(4) m(1)
    by simp
qed

text \<open>
  Claim C5. The classifier is not total and does not fail closed: a string with a double
  colon and more than eight pieces makes \<^verbatim>\<open>Array(missing)\<close> throw a RangeError, the
  malformed \<^verbatim>\<open>1:2\<close> is normalized to two segments and classified public, and the malformed
  \<^verbatim>\<open>1..2.3\<close> is classified public because \<^verbatim>\<open>Number('')\<close> is 0.
\<close>

theorem isPrivateIP_not_total:
  "isPrivateIP ''1:2:3:4:5::6:7:8:9'' = Inl (RangeError ''Invalid array length'')
   \<and> isPrivateIP ''1:2'' = Inr False
   \<and> isPrivateIP ''1..2.3'' = Inr False"
proof -
  have c: "includes_str ''1:2:3:4:5::6:7:8:9'' '':''" "includes_str ''1:2'' '':''"
    "\<not> includes_str ''1..2.3'' '':''" by code_simp+
  have d: "\<not> includes_str ''1:2:3:4:5::6:7:8:9'' ''.''" "\<not> includes_str ''1:2'' ''.''"
    by code_simp+
  have n: "normalizeIPv6 ''1:2:3:4:5::6:7:8:9'' = Inl (RangeError ''Invalid array length'')"
    "normalizeIPv6 ''1:2'' = Inr ''0001:0002''" by code_simp+
  have p: "parseInt (slice ''0001:0002'' 0 4) 16 = Fin 1" by (simp add: parseInt_defs)
  have st: "\<not> startsWith ''0001:0002'' ''0000:0000:0000:0000:0000:ffff:''"
    by (simp add: startsWith_def)
  have a: "isPrivateIPv6 ''1:2:3:4:5::6:7:8:9'' = Inl (RangeError ''Invalid array length'')"
    unfolding isPrivateIPv6_def by (simp only: d n if_False option.case sum.case)
  have b: "isPrivateIPv6 ''1:2'' = Inr False"
    unfolding isPrivateIPv6_def by (simp only: d n if_False option.case sum.case) (simp add: st p)
  have sp: "split_str ''1..2.3'' ''.'' = [''1'', [], ''2'', ''3'']" by code_simp
  have nn: "Number ''1'' = Fin 1" "Number [] = Fin 0" "Number ''2'' = Fin 2" "Number ''3'' = Fin 3"
    by (simp_all add: number_defs)
  have v: "isPrivateIPv4 ''1..2.3'' = False"
    by (simp add: isPrivateIPv4_def sp nn isNaN_def)
  have "isPrivateIP ''1:2:3:4:5::6:7:8:9'' = Inl (RangeError ''Invalid array length'')"
    unfolding isPrivateIP_def by (simp only: c a if_True) simp
  moreover have "isPrivateIP ''1:2'' = Inr False"
    unfolding isPrivateIP_def by (simp only: c b if_True) simp
  moreover have "isPrivateIP ''1..2.3'' = Inr False"
    unfolding isPrivateIP_def by (simp only: c v if_False) simp
  ultimately show ?thesis by simp
qed

section \<open>Claims about the target resolver\<close>

text \<open>
  Claim C10. For an http or https URL whose host name is a non-empty run of hexadecimal
  digits (so it has no dot), \<^verbatim>\<open>resolveAndValidate\<close> issues no DNS lookup: the host name
  matches the IPv6 pattern, goes to the classifier as it is, fails the four-part IPv4 test
  there and is classified private, so the call throws the private-address error. The empty
  list of lookups is the second component. (The host of an http or https URL is never
  empty.)
\<close>

theorem hex_hostname_rejected:
  assumes "new_URL w urlString = Some u"
    and "protocol u = ''http:'' \<or> protocol u = ''https:''"
    and "hostname u \<noteq> []"
    and "list_all isHexDigit (hostname u)"
  shows "resolveAndValidate w urlString
           = (Inl (Error ''URL resolves to a private/internal IP address''), [])"
proof -
  let ?h = "hostname u"
  note sp = hex_no_special [OF assms(4)]
  have nb: "toLowerCase ?h \<notin> set BLOCKED_HOSTNAMES"
    by (rule hex_not_blocked [OF assms(4)])
  have n4: "\<not> ipv4Regex_test ?h"
    using sp by (simp add: ipv4Regex_test_def split_str_no_sep)
  have y6: "ipv6Regex_test ?h"
    using assms(3,4) by (simp add: ipv6Regex_test_def hex_stripBrackets list_all_iff)
  have nm: "?h \<noteq> ''169.254.169.254''"
    using sp by auto
  have priv: "isPrivateIP ?h = Inr True"
    using sp nm by (simp add: isPrivateIP_def includes_str_single isPrivateIPv4_short)
  show ?thesis
    using assms(1,2) nb n4 y6 priv
    by (simp add: resolveAndValidate_def chooseIP_def hex_stripBrackets [OF assms(4)])
qed

theorem hex_hostname_rejected_witness:
  "resolveAndValidate w_beef ''http://beef/''
     = (Inl (Error ''URL resolves to a private/internal IP address''), [])"
  using hex_hostname_rejected [of w_beef "''http://beef/''" "\<lparr>protocol = ''http:'', hostname = ''beef''\<rparr>"]
  by (simp add: w_beef_def isHexDigit_def)

lemma resolveDns_None:
  "fst (resolveDns w h) = None \<longleftrightarrow>
     (dns_resolve4 w h = None \<or> dns_resolve4 w h = Some []) \<and> (dns_resolve6 w h = None \<or> dns_resolve6 w h = Some [])"
  by (auto simp: resolveDns_def split: option.splits list.splits)

lemma chooseIP_None:
  "fst (chooseIP w h) = None \<longleftrightarrow>
     \<not> ipv4Regex_test h \<and> \<not> ipv6Regex_test h
     \<and> (dns_resolve4 w h = None \<or> dns_resolve4 w h = Some []) \<and> (dns_resolve6 w h = None \<or> dns_resolve6 w h = Some [])"
  by (simp add: chooseIP_def resolveDns_None)

lemma resolveAndValidate_fst:
  "fst (resolveAndValidate w s) =
     (case new_URL w s of
        None \<Rightarrow> Inl (Error ''Invalid URL'')
      | Some u \<Rightarrow>
          if protocol u \<noteq> ''http:'' \<and> protocol u \<noteq> ''https:''
          then Inl (Error ''Only http and https protocols are allowed'')
          else if toLowerCase (hostname u) \<in> set BLOCKED_HOSTNAMES
          then Inl (Error ''Hostname is blocked'')
          else
            (case fst (chooseIP w (hostname u)) of
               None \<Rightarrow> Inl (Error ''DNS resolution failed'')
             | Some ip \<Rightarrow>
                 (case isPrivateIP ip of
                    Inl e \<Rightarrow> Inl e
                  | Inr True \<Rightarrow> Inl (Error ''URL resolves to a private/internal IP address'')
                  | Inr False \<Rightarrow> Inr \<lparr>res_hostname = hostname u, res_ip = ip\<rparr>)))"
  by (simp add: resolveAndValidate_def split: option.splits prod.splits sum.splits bool.splits)

lemma chooseIP_Some:
  "fst (chooseIP w h) = Some ip \<longleftrightarrow>
     (ipv4Regex_test h \<and> ip = h)
     \<or> (\<not> ipv4Regex_test h \<and> ipv6Regex_test h \<and> ip = stripBrackets h)
     \<or> (\<not> ipv4Regex_test h \<and> \<not> ipv6Regex_test h
          \<and> (\<exists>rest. dns_resolve4 w h = Some (ip # rest)))
     \<or> (\<not> ipv4Regex_test h \<and> \<not> ipv6Regex_test h
          \<and> (dns_resolve4 w h = None \<or> dns_resolve4 w h = Some [])
          \<and> (\<exists>rest. dns_resolve6 w h = Some (ip # rest)))"
  by (auto simp: chooseIP_def resolveDns_def split: option.splits list.splits)

lemma isPrivateIP_no_colon: "CHR '':'' \<notin> set ip \<Longrightarrow> \<exists>b. isPrivateIP ip = Inr b"
  by (simp add: isPrivateIP_def includes_str_single) blast

lemma stripPrefix_Some: "stripPrefix p s = Some r \<Longrightarrow> s = p @ r"
  by (induction p s rule: stripPrefix.induct) (auto split: if_splits)

lemma stripPrefix_None_iff: "stripPrefix p s = None \<longleftrightarrow> \<not> prefix p s"
  by (induction p s rule: stripPrefix.induct) auto

lemma split_str_nonempty: "sep \<noteq> [] \<Longrightarrow> split_str s sep \<noteq> []"
  by (subst split_str.simps) (simp split: option.splits list.splits)

lemma split_str_Cons:
  assumes "sep \<noteq> []" and "stripPrefix sep (c # cs) = None"
  shows "split_str (c # cs) sep = (c # hd (split_str cs sep)) # tl (split_str cs sep)"
  using assms split_str_nonempty [OF assms(1), of cs]
  by (subst split_str.simps) (simp split: list.splits)

lemma split_str_strip:
  assumes "sep \<noteq> []" and "stripPrefix sep s = Some rest"
  shows "split_str s sep = [] # split_str rest sep"
  using assms by (subst split_str.simps) simp

lemma split_str_append_single: "split_str (a @ c # b) [c] = split_str a [c] @ split_str b [c]"
proof (induction a)
  case Nil
  show ?case by (simp add: split_str_strip [of "[c]" "c # b" b] split_str_Nil)
next
  case (Cons x xs)
  show ?case
  proof (cases "x = c")
    case True
    have "split_str ((x # xs) @ c # b) [c] = [] # split_str (xs @ c # b) [c]"
      using True by (intro split_str_strip) simp_all
    moreover have "split_str (x # xs) [c] = [] # split_str xs [c]"
      using True by (intro split_str_strip) simp_all
    ultimately show ?thesis using Cons.IH by simp
  next
    case False
    have a: "split_str (x # xs @ c # b) [c]
        = (x # hd (split_str (xs @ c # b) [c])) # tl (split_str (xs @ c # b) [c])"
      using False by (intro split_str_Cons) simp_all
    have b: "split_str (x # xs) [c] = (x # hd (split_str xs [c])) # tl (split_str xs [c])"
      using False by (intro split_str_Cons) simp_all
    have ne: "split_str xs [c] \<noteq> []" by (rule split_str_nonempty) simp
    show ?thesis
      using a b ne by (simp add: Cons.IH)
  qed
qed

lemma join_Cons: "join (x # xs) sep = x @ (if xs = [] then [] else sep @ join xs sep)"
  by (cases xs) simp_all

lemma join_split: "sep \<noteq> [] \<Longrightarrow> join (split_str s sep) sep = s"
proof (induction "length s" arbitrary: s rule: less_induct)
  case less
  note sep = less.prems
  show ?case
  proof (cases "stripPrefix sep s")
    case (Some rest)
    have "length rest < length s"
      using stripPrefix_length [OF Some] sep by (cases sep) simp_all
    from less.hyps [OF this sep] have ih: "join (split_str rest sep) sep = rest" .
    have ne: "split_str rest sep \<noteq> []" by (rule split_str_nonempty [OF sep])
    have "join (split_str s sep) sep = sep @ rest"
      using ih ne by (simp add: split_str_strip [OF sep Some] join_Cons)
    then show ?thesis using stripPrefix_Some [OF Some] by simp
  next
    case None
    show ?thesis
    proof (cases s)
      case Nil
      then show ?thesis by (simp add: split_str_Nil [OF sep])
    next
      case (Cons c cs)
      have "length cs < length s" by (simp add: Cons)
      from less.hyps [OF this sep] have ih: "join (split_str cs sep) sep = cs" .
      have ne: "split_str cs sep \<noteq> []" by (rule split_str_nonempty [OF sep])
      then obtain p ps where sp: "split_str cs sep = p # ps" by (cases "split_str cs sep") auto
      have "split_str s sep = (c # p) # ps"
        using split_str_Cons [OF sep None [unfolded Cons]] sp by (simp add: Cons)
      then show ?thesis using ih sp by (simp add: join_Cons Cons)
    qed
  qed
qed

lemma includes_split2:
  "sep \<noteq> [] \<Longrightarrow> includes_str s sep \<Longrightarrow> 2 \<le> length (split_str s sep)"
proof (induction s)
  case Nil
  then show ?case by simp
next
  case (Cons c cs)
  show ?case
  proof (cases "stripPrefix sep (c # cs)")
    case (Some rest)
    have "split_str rest sep \<noteq> []" by (rule split_str_nonempty [OF Cons.prems(1)])
    then show ?thesis
      by (cases "split_str rest sep") (simp_all add: split_str_strip [OF Cons.prems(1) Some])
  next
    case None
    then have "\<not> prefix sep (c # cs)" by (simp add: stripPrefix_None_iff)
    with Cons.prems(2) have "includes_str cs sep" by simp
    from Cons.IH [OF Cons.prems(1) this] show ?thesis
      by (cases "split_str cs sep") (simp_all add: split_str_Cons [OF Cons.prems(1) None])
  qed
qed

lemma join_snoc: "ys \<noteq> [] \<Longrightarrow> join (ys @ [y]) sep = join ys sep @ sep @ y"
proof (induction ys)
  case Nil
  then show ?case by simp
next
  case (Cons a ys)
  show ?case
  proof (cases ys)
    case Nil
    then show ?thesis by simp
  next
    case (Cons b bs)
    with Cons.IH show ?thesis by (simp add: join_Cons)
  qed
qed

lemma last_nine:
  assumes all: "list_all (\<lambda>p. length p \<le> 8) xs"
    and long: "30 \<le> length (join xs '':'')"
  shows "CHR '':'' \<in> set (sliceLast (join xs '':'') 9)"
proof (cases xs rule: rev_cases)
  case Nil
  with long show ?thesis by simp
next
  case (snoc ys y)
  from all snoc have y: "length y \<le> 8" by simp
  show ?thesis
  proof (cases "ys = []")
    case True
    with snoc long y show ?thesis by simp
  next
    case False
    have n: "join xs '':'' = join ys '':'' @ CHR '':'' # y"
      using join_snoc [OF False, of y "'':''"] by (simp add: snoc)
    have "length (join xs '':'') - 9 \<le> length (join ys '':'')" using y by (simp add: n)
    then show ?thesis by (simp add: sliceLast_def n)
  qed
qed

lemma pad_length: "length (toLowerCase (padStart s 4 c)) \<le> 8 \<longleftrightarrow> length s \<le> 8"
  by (auto simp: toLowerCase_def padStart_def)

lemma isPrivateIPv6_returns:
  assumes n: "normalizeIPv6 ip = Inr n"
    and t: "startsWith n ''0000:0000:0000:0000:0000:ffff:'' \<Longrightarrow> CHR '':'' \<in> set (sliceLast n 9)"
  shows "\<exists>b. isPrivateIPv6 ip = Inr b"
proof (cases "if includes_str ip ''.'' then match_mapped ip else None")
  case (Some m)
  then show ?thesis unfolding isPrivateIPv6_def by (simp only: option.case) blast
next
  case None
  note d = isPrivateIPv6_def [of ip, unfolded None n option.case sum.case]
  show ?thesis
  proof (cases "n = ''0000:0000:0000:0000:0000:0000:0000:0001''")
    case True
    then have "isPrivateIPv6 ip = Inr True" unfolding d by (simp only: simp_thms if_True)
    then show ?thesis by blast
  next
    case n1: False
    show ?thesis
    proof (cases "startsWith n ''0000:0000:0000:0000:0000:ffff:''")
      case True
      from t [OF True] have "includes_str (sliceLast n 9) '':''" by (simp add: includes_str_single)
      then have "2 \<le> length (split_str (sliceLast n 9) '':'')" by (intro includes_split2) simp_all
      then obtain h1 h2 rest where sp: "split_str (sliceLast n 9) '':'' = h1 # h2 # rest"
        by (cases "split_str (sliceLast n 9) '':''"; cases "tl (split_str (sliceLast n 9) '':'')") auto
      show ?thesis
        unfolding d by (simp only: n1 True if_True if_False Let_def sp list.case) blast
    next
      case False
      have g: "\<exists>b. (if A then (Inr True :: js_exn + bool) else if B then Inr True else Inr False) = Inr b"
        for A B by (cases A; cases B) auto
      show ?thesis
        unfolding d by (simp only: n1 False if_True if_False Let_def) (rule g)
    qed
  qed
qed

lemma double_colon_pieces:
  assumes dc: "includes_str ip ''::''"
  shows "\<exists>more. split_str ip '':'' =
           split_str (split_str ip ''::'' ! 0) '':'' @ [[]] @ split_str (split_str ip ''::'' ! 1) '':'' @ more"
proof -
  from includes_split2 [OF _ dc] have "2 \<le> length (split_str ip ''::'')" by simp
  then obtain l r rest where sp: "split_str ip ''::'' = l # r # rest"
    by (cases "split_str ip ''::''"; cases "tl (split_str ip ''::'')") auto
  define z where "z = (if rest = [] then [] else ''::'' @ join rest ''::'')"
  have "join (split_str ip ''::'') ''::'' = ip" by (rule join_split) simp
  then have ip: "ip = l @ CHR '':'' # (CHR '':'' # (r @ z))"
    unfolding sp by (simp add: join_Cons z_def)
  have e: "split_str [] '':'' = [[]]" by (simp add: split_str_Nil)
  have c: "split_str (CHR '':'' # x) '':'' = [[]] @ split_str x '':''" for x
    using split_str_append_single [of "[]" "CHR '':''" x] by (simp add: e)
  have "\<exists>more. split_str (r @ z) '':'' = split_str r '':'' @ more"
  proof (cases "rest = []")
    case True
    then show ?thesis by (simp add: z_def)
  next
    case False
    then have "r @ z = r @ CHR '':'' # (CHR '':'' # join rest ''::'')" by (simp add: z_def)
    then show ?thesis
      using split_str_append_single [of r "CHR '':''" "CHR '':'' # join rest ''::''"] by simp
  qed
  then obtain more where m: "split_str (r @ z) '':'' = split_str r '':'' @ more" ..
  have "split_str ip '':'' = split_str l '':'' @ split_str (CHR '':'' # (r @ z)) '':''"
    unfolding ip by (rule split_str_append_single)
  also have "split_str (CHR '':'' # (r @ z)) '':'' = [[]] @ split_str (r @ z) '':''" by (rule c)
  finally have "split_str ip '':'' = split_str l '':'' @ [[]] @ split_str r '':'' @ more"
    unfolding m .
  then show ?thesis unfolding sp by (intro exI [of _ more]) simp
qed

lemma isPrivateIP_returns:
  assumes cnt: "length (split_str ip '':'') \<le> 9"
    and grp: "list_all (\<lambda>p. length p \<le> 8) (split_str ip '':'')"
  shows "\<exists>b. isPrivateIP ip = Inr b"
proof (cases "CHR '':'' \<in> set ip")
  case False
  then show ?thesis by (rule isPrivateIP_no_colon)
next
  case True
  have "\<exists>b. isPrivateIPv6 ip = Inr b"
  proof (cases "if includes_str ip ''.'' then match_mapped ip else None")
    case (Some m)
    then show ?thesis unfolding isPrivateIPv6_def by (simp only: option.case) blast
  next
    case None
    note d = normalizeIPv6_def [of ip, unfolded None option.case]
    have "\<exists>segs. normalizeIPv6 ip = Inr (join (map (\<lambda>s. toLowerCase (padStart s 4 CHR ''0'')) segs) '':'')
            \<and> list_all (\<lambda>p. length p \<le> 8) segs"
    proof (cases "includes_str ip ''::''")
      case False
      then show ?thesis unfolding d using grp by (simp only: if_False) blast
    next
      case dc: True
      define left where "left = split_str ip ''::'' ! 0"
      define right where "right = split_str ip ''::'' ! 1"
      define L where "L = (if left \<noteq> [] then split_str left '':'' else [])"
      define R where "R = (if right \<noteq> [] then split_str right '':'' else [])"
      from double_colon_pieces [OF dc] obtain more where
        sp: "split_str ip '':'' = split_str left '':'' @ [[]] @ split_str right '':'' @ more"
        unfolding left_def right_def by blast
      have len: "length L + length R \<le> 8"
        using cnt unfolding sp L_def R_def by (simp split: if_splits)
      have gl: "list_all (\<lambda>p. length p \<le> 8) L" "list_all (\<lambda>p. length p \<le> 8) R"
        using grp unfolding sp L_def R_def by (simp_all split: if_splits)
      have m0: "\<not> 8 - int (length L) - int (length R) < 0" using len by simp
      have nz: "normalizeIPv6 ip
          = Inr (join (map (\<lambda>s. toLowerCase (padStart s 4 CHR ''0''))
              (L @ replicate (nat (8 - int (length L) - int (length R))) ''0000'' @ R)) '':'')"
        unfolding d
        by (simp only: dc if_True Let_def left_def [symmetric] right_def [symmetric]
            L_def [symmetric] R_def [symmetric] m0 if_False)
      have "list_all (\<lambda>p. length p \<le> 8)
              (L @ replicate (nat (8 - int (length L) - int (length R))) ''0000'' @ R)"
        using gl by (auto simp: list_all_iff)
      with nz show ?thesis by blast
    qed
    then obtain segs where nz: "normalizeIPv6 ip = Inr (join (map (\<lambda>s. toLowerCase (padStart s 4 CHR ''0'')) segs) '':'')"
      and gs: "list_all (\<lambda>p. length p \<le> 8) segs" by blast
    have gp: "list_all (\<lambda>p. length p \<le> 8) (map (\<lambda>s. toLowerCase (padStart s 4 CHR ''0'')) segs)"
      using gs by (simp add: list_all_iff pad_length)
    show ?thesis
    proof (rule isPrivateIPv6_returns [OF nz])
      assume "startsWith (join (map (\<lambda>s. toLowerCase (padStart s 4 CHR ''0'')) segs) '':'')
                ''0000:0000:0000:0000:0000:ffff:''"
      then have "30 \<le> length (join (map (\<lambda>s. toLowerCase (padStart s 4 CHR ''0'')) segs) '':'')"
        unfolding startsWith_def
        using prefix_length_le [of "''0000:0000:0000:0000:0000:ffff:''"
            "join (map (\<lambda>s. toLowerCase (padStart s 4 CHR ''0'')) segs) '':''"]
        by simp
      from last_nine [OF gp this]
      show "CHR '':'' \<in> set (sliceLast (join (map (\<lambda>s. toLowerCase (padStart s 4 CHR ''0'')) segs) '':'') 9)" .
    qed
  qed
  then obtain b where b: "isPrivateIPv6 ip = Inr b" ..
  have inc: "includes_str ip '':''" using True by (simp add: includes_str_single)
  show ?thesis
  proof (cases "ip = ''169.254.169.254''")
    case True
    then have "isPrivateIP ip = Inr True" unfolding isPrivateIP_def by (simp only: simp_thms if_True)
    then show ?thesis by blast
  next
    case False
    then have "isPrivateIP ip = Inr b" unfolding isPrivateIP_def by (simp only: if_False inc if_True b)
    then show ?thesis by blast
  qed
qed

lemma join_chars: "set (join xs sep) \<subseteq> \<Union> (set ` set xs) \<union> set sep"
proof (induction xs)
  case Nil
  then show ?case by simp
next
  case (Cons x xs)
  then show ?case by (cases xs) auto
qed

lemma ipv4_literal_returns:
  assumes "ipv4Regex_test h"
  shows "\<exists>b. isPrivateIP h = Inr b"
proof (rule isPrivateIP_no_colon)
  have j: "join (split_str h ''.'') ''.'' = h" by (rule join_split) simp
  have "\<forall>p \<in> set (split_str h ''.''). \<forall>c \<in> set p. isDecimalDigit c"
    using assms by (simp add: ipv4Regex_test_def Let_def list_all_iff)
  then have "\<forall>p \<in> set (split_str h ''.''). CHR '':'' \<notin> set p"
    using digit_char by blast
  then have "CHR '':'' \<notin> \<Union> (set ` set (split_str h ''.'')) \<union> set ''.''" by auto
  with join_chars [of "split_str h ''.''" "''.''"] show "CHR '':'' \<notin> set h"
    unfolding j by blast
qed

text \<open>
  Claim C4. \<^verbatim>\<open>resolveAndValidate\<close> throws exactly when the URL does not parse, its scheme
  is neither http nor https, its host name is on the blocklist in lower case, the host name
  matches neither address pattern and both DNS lookups fail or return nothing, or the
  address it examines is classified private; each class has its own message, given to the
  first class that holds in this order; otherwise the result is the URL's host name with
  the address examined. The address examined is written out in the statement: the host
  name itself when it matches the IPv4 pattern; otherwise the host name without its
  brackets when it matches the IPv6 pattern; otherwise the first answer of
  \<^verbatim>\<open>resolve4\<close>; and the first answer of \<^verbatim>\<open>resolve6\<close> when \<^verbatim>\<open>resolve4\<close> rejects or
  answers nothing. The premise says that the classifier returns on that address. It does
  on every string without a colon, so on every host name that matches the IPv4 pattern and
  on every dotted quad (\<open>isPrivateIP_no_colon\<close>, \<open>ipv4_literal_returns\<close>), and on every
  string with at most eight colons and at most eight characters between two of them, so on
  every IPv6 address written in groups of hexadecimal digits (\<open>isPrivateIP_returns\<close>).
\<close>

theorem resolveAndValidate_throws_iff:
  assumes ret: "\<And>u ip. new_URL w s = Some u \<Longrightarrow>
                  (ipv4Regex_test (hostname u) \<and> ip = hostname u)
                  \<or> (\<not> ipv4Regex_test (hostname u) \<and> ipv6Regex_test (hostname u)
                       \<and> ip = stripBrackets (hostname u))
                  \<or> (\<not> ipv4Regex_test (hostname u) \<and> \<not> ipv6Regex_test (hostname u)
                       \<and> (\<exists>rest. dns_resolve4 w (hostname u) = Some (ip # rest)))
                  \<or> (\<not> ipv4Regex_test (hostname u) \<and> \<not> ipv6Regex_test (hostname u)
                       \<and> (dns_resolve4 w (hostname u) = None \<or> dns_resolve4 w (hostname u) = Some [])
                       \<and> (\<exists>rest. dns_resolve6 w (hostname u) = Some (ip # rest)))
                  \<Longrightarrow> \<exists>b. isPrivateIP ip = Inr b"
  shows
    "((\<exists>e. fst (resolveAndValidate w s) = Inl e) \<longleftrightarrow>
        new_URL w s = None
        \<or> (\<exists>u. new_URL w s = Some u \<and> protocol u \<noteq> ''http:'' \<and> protocol u \<noteq> ''https:'')
        \<or> (\<exists>u. new_URL w s = Some u \<and> toLowerCase (hostname u) \<in> set BLOCKED_HOSTNAMES)
        \<or> (\<exists>u. new_URL w s = Some u
               \<and> \<not> ipv4Regex_test (hostname u) \<and> \<not> ipv6Regex_test (hostname u)
               \<and> (dns_resolve4 w (hostname u) = None \<or> dns_resolve4 w (hostname u) = Some [])
               \<and> (dns_resolve6 w (hostname u) = None \<or> dns_resolve6 w (hostname u) = Some []))
        \<or> (\<exists>u ip. new_URL w s = Some u
               \<and> ((ipv4Regex_test (hostname u) \<and> ip = hostname u)
                  \<or> (\<not> ipv4Regex_test (hostname u) \<and> ipv6Regex_test (hostname u)
                       \<and> ip = stripBrackets (hostname u))
                  \<or> (\<not> ipv4Regex_test (hostname u) \<and> \<not> ipv6Regex_test (hostname u)
                       \<and> (\<exists>rest. dns_resolve4 w (hostname u) = Some (ip # rest)))
                  \<or> (\<not> ipv4Regex_test (hostname u) \<and> \<not> ipv6Regex_test (hostname u)
                       \<and> (dns_resolve4 w (hostname u) = None \<or> dns_resolve4 w (hostname u) = Some [])
                       \<and> (\<exists>rest. dns_resolve6 w (hostname u) = Some (ip # rest))))
               \<and> isPrivateIP ip = Inr True))
     \<and> (fst (resolveAndValidate w s) = Inl (Error ''Invalid URL'') \<longleftrightarrow> new_URL w s = None)
     \<and> (fst (resolveAndValidate w s) = Inl (Error ''Only http and https protocols are allowed'') \<longleftrightarrow>
          (\<exists>u. new_URL w s = Some u \<and> protocol u \<noteq> ''http:'' \<and> protocol u \<noteq> ''https:''))
     \<and> (fst (resolveAndValidate w s) = Inl (Error ''Hostname is blocked'') \<longleftrightarrow>
          (\<exists>u. new_URL w s = Some u \<and> (protocol u = ''http:'' \<or> protocol u = ''https:'')
             \<and> toLowerCase (hostname u) \<in> set BLOCKED_HOSTNAMES))
     \<and> (fst (resolveAndValidate w s) = Inl (Error ''DNS resolution failed'') \<longleftrightarrow>
          (\<exists>u. new_URL w s = Some u \<and> (protocol u = ''http:'' \<or> protocol u = ''https:'')
             \<and> toLowerCase (hostname u) \<notin> set BLOCKED_HOSTNAMES
             \<and> \<not> ipv4Regex_test (hostname u) \<and> \<not> ipv6Regex_test (hostname u)
             \<and> (dns_resolve4 w (hostname u) = None \<or> dns_resolve4 w (hostname u) = Some [])
             \<and> (dns_resolve6 w (hostname u) = None \<or> dns_resolve6 w (hostname u) = Some [])))
     \<and> (fst (resolveAndValidate w s) = Inl (Error ''URL resolves to a private/internal IP address'') \<longleftrightarrow>
          (\<exists>u ip. new_URL w s = Some u \<and> (protocol u = ''http:'' \<or> protocol u = ''https:'')
             \<and> toLowerCase (hostname u) \<notin> set BLOCKED_HOSTNAMES
             \<and> ((ipv4Regex_test (hostname u) \<and> ip = hostname u)
                \<or> (\<not> ipv4Regex_test (hostname u) \<and> ipv6Regex_test (hostname u)
                     \<and> ip = stripBrackets (hostname u))
                \<or> (\<not> ipv4Regex_test (hostname u) \<and> \<not> ipv6Regex_test (hostname u)
                     \<and> (\<exists>rest. dns_resolve4 w (hostname u) = Some (ip # rest)))
                \<or> (\<not> ipv4Regex_test (hostname u) \<and> \<not> ipv6Regex_test (hostname u)
                     \<and> (dns_resolve4 w (hostname u) = None \<or> dns_resolve4 w (hostname u) = Some [])
                     \<and> (\<exists>rest. dns_resolve6 w (hostname u) = Some (ip # rest))))
             \<and> isPrivateIP ip = Inr True))
     \<and> (\<forall>r. fst (resolveAndValidate w s) = Inr r \<longleftrightarrow>
          (\<exists>u ip. new_URL w s = Some u \<and> (protocol u = ''http:'' \<or> protocol u = ''https:'')
             \<and> toLowerCase (hostname u) \<notin> set BLOCKED_HOSTNAMES
             \<and> ((ipv4Regex_test (hostname u) \<and> ip = hostname u)
                \<or> (\<not> ipv4Regex_test (hostname u) \<and> ipv6Regex_test (hostname u)
                     \<and> ip = stripBrackets (hostname u))
                \<or> (\<not> ipv4Regex_test (hostname u) \<and> \<not> ipv6Regex_test (hostname u)
                     \<and> (\<exists>rest. dns_resolve4 w (hostname u) = Some (ip # rest)))
                \<or> (\<not> ipv4Regex_test (hostname u) \<and> \<not> ipv6Regex_test (hostname u)
                     \<and> (dns_resolve4 w (hostname u) = None \<or> dns_resolve4 w (hostname u) = Some [])
                     \<and> (\<exists>rest. dns_resolve6 w (hostname u) = Some (ip # rest))))
             \<and> isPrivateIP ip = Inr False
             \<and> r = \<lparr>res_hostname = hostname u, res_ip = ip\<rparr>))"
proof -
  have ret': "\<exists>b. isPrivateIP ip = Inr b"
    if "new_URL w s = Some u" "fst (chooseIP w (hostname u)) = Some ip" for u ip
    using ret [OF that(1) that(2) [unfolded chooseIP_Some]] .
  have main:
    "((\<exists>e. fst (resolveAndValidate w s) = Inl e) \<longleftrightarrow>
        new_URL w s = None
        \<or> (\<exists>u. new_URL w s = Some u \<and> protocol u \<noteq> ''http:'' \<and> protocol u \<noteq> ''https:'')
        \<or> (\<exists>u. new_URL w s = Some u \<and> toLowerCase (hostname u) \<in> set BLOCKED_HOSTNAMES)
        \<or> (\<exists>u. new_URL w s = Some u
               \<and> \<not> ipv4Regex_test (hostname u) \<and> \<not> ipv6Regex_test (hostname u)
               \<and> (dns_resolve4 w (hostname u) = None \<or> dns_resolve4 w (hostname u) = Some [])
               \<and> (dns_resolve6 w (hostname u) = None \<or> dns_resolve6 w (hostname u) = Some []))
        \<or> (\<exists>u ip. new_URL w s = Some u \<and> fst (chooseIP w (hostname u)) = Some ip
               \<and> isPrivateIP ip = Inr True))
     \<and> (fst (resolveAndValidate w s) = Inl (Error ''Invalid URL'') \<longleftrightarrow> new_URL w s = None)
     \<and> (fst (resolveAndValidate w s) = Inl (Error ''Only http and https protocols are allowed'') \<longleftrightarrow>
          (\<exists>u. new_URL w s = Some u \<and> protocol u \<noteq> ''http:'' \<and> protocol u \<noteq> ''https:''))
     \<and> (fst (resolveAndValidate w s) = Inl (Error ''Hostname is blocked'') \<longleftrightarrow>
          (\<exists>u. new_URL w s = Some u \<and> (protocol u = ''http:'' \<or> protocol u = ''https:'')
             \<and> toLowerCase (hostname u) \<in> set BLOCKED_HOSTNAMES))
     \<and> (fst (resolveAndValidate w s) = Inl (Error ''DNS resolution failed'') \<longleftrightarrow>
          (\<exists>u. new_URL w s = Some u \<and> (protocol u = ''http:'' \<or> protocol u = ''https:'')
             \<and> toLowerCase (hostname u) \<notin> set BLOCKED_HOSTNAMES
             \<and> \<not> ipv4Regex_test (hostname u) \<and> \<not> ipv6Regex_test (hostname u)
             \<and> (dns_resolve4 w (hostname u) = None \<or> dns_resolve4 w (hostname u) = Some [])
             \<and> (dns_resolve6 w (hostname u) = None \<or> dns_resolve6 w (hostname u) = Some [])))
     \<and> (fst (resolveAndValidate w s) = Inl (Error ''URL resolves to a private/internal IP address'') \<longleftrightarrow>
          (\<exists>u ip. new_URL w s = Some u \<and> (protocol u = ''http:'' \<or> protocol u = ''https:'')
             \<and> toLowerCase (hostname u) \<notin> set BLOCKED_HOSTNAMES
             \<and> fst (chooseIP w (hostname u)) = Some ip \<and> isPrivateIP ip = Inr True))
     \<and> (\<forall>r. fst (resolveAndValidate w s) = Inr r \<longleftrightarrow>
          (\<exists>u ip. new_URL w s = Some u \<and> (protocol u = ''http:'' \<or> protocol u = ''https:'')
             \<and> toLowerCase (hostname u) \<notin> set BLOCKED_HOSTNAMES
             \<and> fst (chooseIP w (hostname u)) = Some ip \<and> isPrivateIP ip = Inr False
             \<and> r = \<lparr>res_hostname = hostname u, res_ip = ip\<rparr>))"
  proof (cases "new_URL w s")
    case None
    then show ?thesis by (simp add: resolveAndValidate_fst)
  next
    case (Some u)
    note u = Some
    show ?thesis
    proof (cases "protocol u \<noteq> ''http:'' \<and> protocol u \<noteq> ''https:''")
      case True
      with u show ?thesis by (simp add: resolveAndValidate_fst)
    next
      case scheme: False
      show ?thesis
      proof (cases "toLowerCase (hostname u) \<in> set BLOCKED_HOSTNAMES")
        case True
        with u scheme show ?thesis by (simp add: resolveAndValidate_fst)
      next
        case nb: False
        show ?thesis
        proof (cases "fst (chooseIP w (hostname u))")
          case None
          with u scheme nb show ?thesis
            using chooseIP_None [of w "hostname u"] by (simp add: resolveAndValidate_fst)
        next
          case (Some ip)
          from ret' [OF u Some] obtain b where b: "isPrivateIP ip = Inr b" ..
          have notNone: "\<not> (\<not> ipv4Regex_test (hostname u) \<and> \<not> ipv6Regex_test (hostname u)
               \<and> (dns_resolve4 w (hostname u) = None \<or> dns_resolve4 w (hostname u) = Some [])
               \<and> (dns_resolve6 w (hostname u) = None \<or> dns_resolve6 w (hostname u) = Some []))"
            using chooseIP_None [of w "hostname u"] Some by simp
          show ?thesis
          proof (cases b)
            case True
            with u scheme nb Some b notNone show ?thesis
              by (simp add: resolveAndValidate_fst)
          next
            case False
            with u scheme nb Some b notNone show ?thesis
              by (simp add: resolveAndValidate_fst) blast
          qed
        qed
      qed
    qed
  qed
  from main show ?thesis unfolding chooseIP_Some .
qed

theorem resolveAndValidate_throws_iff_witness:
  "fst (resolveAndValidate w_sites ''https://example.com/'')
     = Inr \<lparr>res_hostname = ''example.com'', res_ip = ''93.184.216.34''\<rparr>
   \<and> fst (resolveAndValidate w_sites ''http://rebind.example/'')
       = Inl (Error ''URL resolves to a private/internal IP address'')
   \<and> fst (resolveAndValidate w_sites ''http://[::1]/'')
       = Inl (Error ''URL resolves to a private/internal IP address'')"
proof -
  let ?u1 = "\<lparr>protocol = ''https:'', hostname = ''example.com''\<rparr>"
  let ?u2 = "\<lparr>protocol = ''http:'', hostname = ''rebind.example''\<rparr>"
  let ?u3 = "\<lparr>protocol = ''http:'', hostname = ''[::1]''\<rparr>"
  have nu: "new_URL w_sites ''https://example.com/'' = Some ?u1"
    "new_URL w_sites ''http://rebind.example/'' = Some ?u2"
    "new_URL w_sites ''http://[::1]/'' = Some ?u3"
    by (simp_all add: w_sites_def)
  have r4: "\<not> ipv4Regex_test ''example.com''" "\<not> ipv4Regex_test ''rebind.example''"
    "\<not> ipv4Regex_test ''[::1]''" by code_simp+
  have r6: "\<not> ipv6Regex_test ''example.com''" "\<not> ipv6Regex_test ''rebind.example''"
    "ipv6Regex_test ''[::1]''" by code_simp+
  have sb: "stripBrackets ''[::1]'' = ''::1''" by code_simp
  have nb: "toLowerCase ''example.com'' \<notin> set BLOCKED_HOSTNAMES"
    "toLowerCase ''rebind.example'' \<notin> set BLOCKED_HOSTNAMES"
    "toLowerCase ''[::1]'' \<notin> set BLOCKED_HOSTNAMES" by code_simp+
  have d4: "dns_resolve4 w_sites ''example.com'' = Some [''93.184.216.34'', ''10.0.0.1'']"
    "dns_resolve4 w_sites ''rebind.example'' = Some [''169.254.169.254'', ''8.8.8.8'']"
    by (simp_all add: w_sites_def)
  have pub: "isPrivateIP ''93.184.216.34'' = Inr False"
    using isPrivateIP_dotted_quad [of "''93''" "''184''" "''216''" "''34''"] by (simp add: octet_defs)
  have meta: "isPrivateIP ''169.254.169.254'' = Inr True" by (simp add: isPrivateIP_def)
  have loop: "isPrivateIP ''::1'' = Inr True" using ipv6_examples by simp
  have a1: "ip = ''93.184.216.34''" if "((ipv4Regex_test (hostname ?u1) \<and> ip = hostname ?u1)
          \<or> (\<not> ipv4Regex_test (hostname ?u1) \<and> ipv6Regex_test (hostname ?u1)
               \<and> ip = stripBrackets (hostname ?u1))
          \<or> (\<not> ipv4Regex_test (hostname ?u1) \<and> \<not> ipv6Regex_test (hostname ?u1)
               \<and> (\<exists>rest. dns_resolve4 w_sites (hostname ?u1) = Some (ip # rest)))
          \<or> (\<not> ipv4Regex_test (hostname ?u1) \<and> \<not> ipv6Regex_test (hostname ?u1)
               \<and> (dns_resolve4 w_sites (hostname ?u1) = None \<or> dns_resolve4 w_sites (hostname ?u1) = Some [])
               \<and> (\<exists>rest. dns_resolve6 w_sites (hostname ?u1) = Some (ip # rest))))" for ip
    using that by (simp add: r4 r6 d4)
  have a2: "ip = ''169.254.169.254''" if "((ipv4Regex_test (hostname ?u2) \<and> ip = hostname ?u2)
          \<or> (\<not> ipv4Regex_test (hostname ?u2) \<and> ipv6Regex_test (hostname ?u2)
               \<and> ip = stripBrackets (hostname ?u2))
          \<or> (\<not> ipv4Regex_test (hostname ?u2) \<and> \<not> ipv6Regex_test (hostname ?u2)
               \<and> (\<exists>rest. dns_resolve4 w_sites (hostname ?u2) = Some (ip # rest)))
          \<or> (\<not> ipv4Regex_test (hostname ?u2) \<and> \<not> ipv6Regex_test (hostname ?u2)
               \<and> (dns_resolve4 w_sites (hostname ?u2) = None \<or> dns_resolve4 w_sites (hostname ?u2) = Some [])
               \<and> (\<exists>rest. dns_resolve6 w_sites (hostname ?u2) = Some (ip # rest))))" for ip
    using that by (simp add: r4 r6 d4)
  have a3: "ip = ''::1''" if "((ipv4Regex_test (hostname ?u3) \<and> ip = hostname ?u3)
          \<or> (\<not> ipv4Regex_test (hostname ?u3) \<and> ipv6Regex_test (hostname ?u3)
               \<and> ip = stripBrackets (hostname ?u3))
          \<or> (\<not> ipv4Regex_test (hostname ?u3) \<and> \<not> ipv6Regex_test (hostname ?u3)
               \<and> (\<exists>rest. dns_resolve4 w_sites (hostname ?u3) = Some (ip # rest)))
          \<or> (\<not> ipv4Regex_test (hostname ?u3) \<and> \<not> ipv6Regex_test (hostname ?u3)
               \<and> (dns_resolve4 w_sites (hostname ?u3) = None \<or> dns_resolve4 w_sites (hostname ?u3) = Some [])
               \<and> (\<exists>rest. dns_resolve6 w_sites (hostname ?u3) = Some (ip # rest))))" for ip
    using that by (simp add: r4 r6 sb)
  have ret1: "\<exists>b. isPrivateIP ip = Inr b"
    if "new_URL w_sites ''https://example.com/'' = Some u" "((ipv4Regex_test (hostname u) \<and> ip = hostname u)
          \<or> (\<not> ipv4Regex_test (hostname u) \<and> ipv6Regex_test (hostname u)
               \<and> ip = stripBrackets (hostname u))
          \<or> (\<not> ipv4Regex_test (hostname u) \<and> \<not> ipv6Regex_test (hostname u)
               \<and> (\<exists>rest. dns_resolve4 w_sites (hostname u) = Some (ip # rest)))
          \<or> (\<not> ipv4Regex_test (hostname u) \<and> \<not> ipv6Regex_test (hostname u)
               \<and> (dns_resolve4 w_sites (hostname u) = None \<or> dns_resolve4 w_sites (hostname u) = Some [])
               \<and> (\<exists>rest. dns_resolve6 w_sites (hostname u) = Some (ip # rest))))" for u ip
  proof -
    from that(1) nu(1) have u: "u = ?u1" by simp
    from a1 [OF that(2) [unfolded u]] pub show ?thesis by blast
  qed
  have ret2: "\<exists>b. isPrivateIP ip = Inr b"
    if "new_URL w_sites ''http://rebind.example/'' = Some u" "((ipv4Regex_test (hostname u) \<and> ip = hostname u)
          \<or> (\<not> ipv4Regex_test (hostname u) \<and> ipv6Regex_test (hostname u)
               \<and> ip = stripBrackets (hostname u))
          \<or> (\<not> ipv4Regex_test (hostname u) \<and> \<not> ipv6Regex_test (hostname u)
               \<and> (\<exists>rest. dns_resolve4 w_sites (hostname u) = Some (ip # rest)))
          \<or> (\<not> ipv4Regex_test (hostname u) \<and> \<not> ipv6Regex_test (hostname u)
               \<and> (dns_resolve4 w_sites (hostname u) = None \<or> dns_resolve4 w_sites (hostname u) = Some [])
               \<and> (\<exists>rest. dns_resolve6 w_sites (hostname u) = Some (ip # rest))))" for u ip
  proof -
    from that(1) nu(2) have u: "u = ?u2" by simp
    from a2 [OF that(2) [unfolded u]] meta show ?thesis by blast
  qed
  have ret3: "\<exists>b. isPrivateIP ip = Inr b"
    if "new_URL w_sites ''http://[::1]/'' = Some u" "((ipv4Regex_test (hostname u) \<and> ip = hostname u)
          \<or> (\<not> ipv4Regex_test (hostname u) \<and> ipv6Regex_test (hostname u)
               \<and> ip = stripBrackets (hostname u))
          \<or> (\<not> ipv4Regex_test (hostname u) \<and> \<not> ipv6Regex_test (hostname u)
               \<and> (\<exists>rest. dns_resolve4 w_sites (hostname u) = Some (ip # rest)))
          \<or> (\<not> ipv4Regex_test (hostname u) \<and> \<not> ipv6Regex_test (hostname u)
               \<and> (dns_resolve4 w_sites (hostname u) = None \<or> dns_resolve4 w_sites (hostname u) = Some [])
               \<and> (\<exists>rest. dns_resolve6 w_sites (hostname u) = Some (ip # rest))))" for u ip
  proof -
    from that(1) nu(3) have u: "u = ?u3" by simp
    from a3 [OF that(2) [unfolded u]] loop show ?thesis by blast
  qed
  note t1 = resolveAndValidate_throws_iff [of w_sites "''https://example.com/''", OF ret1]
  note t2 = resolveAndValidate_throws_iff [of w_sites "''http://rebind.example/''", OF ret2]
  note t3 = resolveAndValidate_throws_iff [of w_sites "''http://[::1]/''", OF ret3]
  note l1 = t1 [THEN conjunct2, THEN conjunct2, THEN conjunct2, THEN conjunct2, THEN conjunct2,
      THEN conjunct2, THEN spec]
  note l2 = t2 [THEN conjunct2, THEN conjunct2, THEN conjunct2, THEN conjunct2, THEN conjunct2,
      THEN conjunct1]
  note l3 = t3 [THEN conjunct2, THEN conjunct2, THEN conjunct2, THEN conjunct2, THEN conjunct2,
      THEN conjunct1]
  have e1: "fst (resolveAndValidate w_sites ''https://example.com/'')
     = Inr \<lparr>res_hostname = ''example.com'', res_ip = ''93.184.216.34''\<rparr>"
  proof (rule l1 [THEN iffD2])
    show "\<exists>u ip. new_URL w_sites ''https://example.com/'' = Some u
        \<and> (protocol u = ''http:'' \<or> protocol u = ''https:'')
        \<and> toLowerCase (hostname u) \<notin> set BLOCKED_HOSTNAMES
        \<and> ((ipv4Regex_test (hostname u) \<and> ip = hostname u)
          \<or> (\<not> ipv4Regex_test (hostname u) \<and> ipv6Regex_test (hostname u)
               \<and> ip = stripBrackets (hostname u))
          \<or> (\<not> ipv4Regex_test (hostname u) \<and> \<not> ipv6Regex_test (hostname u)
               \<and> (\<exists>rest. dns_resolve4 w_sites (hostname u) = Some (ip # rest)))
          \<or> (\<not> ipv4Regex_test (hostname u) \<and> \<not> ipv6Regex_test (hostname u)
               \<and> (dns_resolve4 w_sites (hostname u) = None \<or> dns_resolve4 w_sites (hostname u) = Some [])
               \<and> (\<exists>rest. dns_resolve6 w_sites (hostname u) = Some (ip # rest))))
        \<and> isPrivateIP ip = Inr False
        \<and> \<lparr>res_hostname = ''example.com'', res_ip = ''93.184.216.34''\<rparr>
              = \<lparr>res_hostname = hostname u, res_ip = ip\<rparr>"
      using nu(1) nb(1) pub by (intro exI [of _ ?u1] exI [of _ "''93.184.216.34''"]) (simp add: r4 r6 d4)
  qed
  have e2: "fst (resolveAndValidate w_sites ''http://rebind.example/'')
       = Inl (Error ''URL resolves to a private/internal IP address'')"
  proof (rule l2 [THEN iffD2])
    show "\<exists>u ip. new_URL w_sites ''http://rebind.example/'' = Some u
        \<and> (protocol u = ''http:'' \<or> protocol u = ''https:'')
        \<and> toLowerCase (hostname u) \<notin> set BLOCKED_HOSTNAMES
        \<and> ((ipv4Regex_test (hostname u) \<and> ip = hostname u)
          \<or> (\<not> ipv4Regex_test (hostname u) \<and> ipv6Regex_test (hostname u)
               \<and> ip = stripBrackets (hostname u))
          \<or> (\<not> ipv4Regex_test (hostname u) \<and> \<not> ipv6Regex_test (hostname u)
               \<and> (\<exists>rest. dns_resolve4 w_sites (hostname u) = Some (ip # rest)))
          \<or> (\<not> ipv4Regex_test (hostname u) \<and> \<not> ipv6Regex_test (hostname u)
               \<and> (dns_resolve4 w_sites (hostname u) = None \<or> dns_resolve4 w_sites (hostname u) = Some [])
               \<and> (\<exists>rest. dns_resolve6 w_sites (hostname u) = Some (ip # rest))))
        \<and> isPrivateIP ip = Inr True"
      using nu(2) nb(2) meta by (intro exI [of _ ?u2] exI [of _ "''169.254.169.254''"]) (simp add: r4 r6 d4)
  qed
  have e3: "fst (resolveAndValidate w_sites ''http://[::1]/'')
       = Inl (Error ''URL resolves to a private/internal IP address'')"
  proof (rule l3 [THEN iffD2])
    show "\<exists>u ip. new_URL w_sites ''http://[::1]/'' = Some u
        \<and> (protocol u = ''http:'' \<or> protocol u = ''https:'')
        \<and> toLowerCase (hostname u) \<notin> set BLOCKED_HOSTNAMES
        \<and> ((ipv4Regex_test (hostname u) \<and> ip = hostname u)
          \<or> (\<not> ipv4Regex_test (hostname u) \<and> ipv6Regex_test (hostname u)
               \<and> ip = stripBrackets (hostname u))
          \<or> (\<not> ipv4Regex_test (hostname u) \<and> \<not> ipv6Regex_test (hostname u)
               \<and> (\<exists>rest. dns_resolve4 w_sites (hostname u) = Some (ip # rest)))
          \<or> (\<not> ipv4Regex_test (hostname u) \<and> \<not> ipv6Regex_test (hostname u)
               \<and> (dns_resolve4 w_sites (hostname u) = None \<or> dns_resolve4 w_sites (hostname u) = Some [])
               \<and> (\<exists>rest. dns_resolve6 w_sites (hostname u) = Some (ip # rest))))
        \<and> isPrivateIP ip = Inr True"
      using nu(3) nb(3) loop by (intro exI [of _ ?u3] exI [of _ "''::1''"]) (simp add: r4 r6 sb)
  qed
  from e1 e2 e3 show ?thesis by (intro conjI)
qed

section \<open>Claims about the relay handler\<close>

lemma fetches_append [simp]: "fetches (xs @ ys) = fetches xs @ fetches ys"
  by (induction xs rule: fetches.induct) simp_all

lemma fetches_Dns [simp]: "fetches (map Dns qs) = []"
  by (induction qs) simp_all

lemma hop_fetches: "fetches (snd (hop w cfg M H B u n)) = [(u, fetchOptions w M H B n)]"
  by (simp add: hop_def split: fetch_result.splits option.splits list.splits prod.splits sum.splits)

lemma resolveAndValidate_parses:
  "fst (resolveAndValidate w t) = Inr ok \<Longrightarrow> \<exists>p. new_URL w t = Some p"
  by (cases "new_URL w t") (simp_all add: resolveAndValidate_def)

lemma hop_Rejected:
  "fetch w (nat n) u (fetchOptions w M H B n) = Rejected err
     \<Longrightarrow> fst (hop w cfg M H B u n) = Return (caught err)"
  by (simp add: hop_def)

lemma hop_final:
  "final_response w (nat n) u (fetchOptions w M H B n) = Some resp
     \<Longrightarrow> fst (hop w cfg M H B u n) = Break resp"
  by (auto simp: hop_def final_response_def split: fetch_result.splits option.splits list.splits if_splits)

lemma hop_redirect:
  assumes "redirect_target w (nat n) u (fetchOptions w M H B n) = Some t"
  shows "\<exists>resp. fetch w (nat n) u (fetchOptions w M H B n) = Fulfilled resp
           \<and> fst (hop w cfg M H B u n) =
               (case fst (resolveAndValidate w t) of
                  Inl err \<Rightarrow> Return (JsonError 400 (''Redirect blocked: '' @ message err))
                | Inr ok \<Rightarrow>
                    if accepted w cfg t then countHop cfg n t resp
                    else Return (JsonError 400 ''Redirect target domain is not in the allowlist''))"
proof -
  from assms obtain resp where f: "fetch w (nat n) u (fetchOptions w M H B n) = Fulfilled resp"
    by (cases "fetch w (nat n) u (fetchOptions w M H B n)") (simp_all add: redirect_target_def)
  from assms f have st: "status resp \<in> set [301, 302, 303, 307, 308]"
    by (simp add: redirect_target_def split: if_splits)
  from assms f st obtain l where l0: "headers_get (headers resp) ''location'' = Some l"
    by (cases "headers_get (headers resp) ''location''") (simp_all add: redirect_target_def)
  from assms f st l0 have ne: "l \<noteq> []" and t0: "resolve_URL w l u = Some t"
    by (simp_all add: redirect_target_def split: if_splits)
  from ne obtain c cs where lc: "l = c # cs" by (cases l) simp_all
  note l = l0 [unfolded lc] and t = t0 [unfolded lc]
  have "fst (hop w cfg M H B u n) =
               (case fst (resolveAndValidate w t) of
                  Inl err \<Rightarrow> Return (JsonError 400 (''Redirect blocked: '' @ message err))
                | Inr ok \<Rightarrow>
                    if accepted w cfg t then countHop cfg n t resp
                    else Return (JsonError 400 ''Redirect target domain is not in the allowlist''))"
  proof (cases "resolveAndValidate w t")
    case (Pair x qs)
    show ?thesis
    proof (cases x)
      case (Inl err)
      with Pair f st l t show ?thesis by (simp add: hop_def)
    next
      case (Inr ok)
      with Pair have "fst (resolveAndValidate w t) = Inr ok" by simp
      from resolveAndValidate_parses [OF this] obtain p where p: "new_URL w t = Some p" ..
      from Pair Inr f st l t p show ?thesis
        by (simp add: hop_def accepted_def isAllowed_def endsWith_def)
    qed
  qed
  with f show ?thesis by blast
qed

lemma hop_Continue:
  assumes "fst (hop w cfg M H B u n) = Continue t r"
  shows "n + 1 \<le> proxyMaxRedirects cfg \<and> accepted w cfg t"
proof -
  have cH: "countHop cfg n x y = Continue t r \<Longrightarrow> n + 1 \<le> proxyMaxRedirects cfg \<and> x = t" for x y
    by (auto simp: countHop_def split: if_splits)
  from assms show ?thesis
    by (auto simp: hop_def accepted_def isAllowed_def endsWith_def
        split: fetch_result.splits option.splits list.splits
        prod.splits sum.splits if_splits dest!: cH)
qed

lemma loop_fst:
  assumes "n \<le> proxyMaxRedirects cfg"
  shows "fst (redirectLoop w cfg M H B u n r) =
           (case fst (hop w cfg M H B u n) of
              Return x \<Rightarrow> Inl x
            | Break f \<Rightarrow> Inr (Some f)
            | Continue u' r' \<Rightarrow> fst (redirectLoop w cfg M H B u' (n + 1) (Some r')))"
  using assms
  by (subst redirectLoop.simps) (simp split: prod.splits hop_result.splits)

lemma loop_fetches:
  assumes "n \<le> proxyMaxRedirects cfg"
  shows "fetches (snd (redirectLoop w cfg M H B u n r)) =
           (u, fetchOptions w M H B n) #
           (case fst (hop w cfg M H B u n) of
              Continue u' r' \<Rightarrow> fetches (snd (redirectLoop w cfg M H B u' (n + 1) (Some r')))
            | _ \<Rightarrow> [])"
proof -
  obtain x ev where h: "hop w cfg M H B u n = (x, ev)" by (cases "hop w cfg M H B u n")
  have f: "fetches ev = [(u, fetchOptions w M H B n)]" using hop_fetches [of w cfg M H B u n] h by simp
  show ?thesis
    using assms f by (subst redirectLoop.simps) (simp add: h split: prod.splits hop_result.splits)
qed

lemma loop_exit: "\<not> n \<le> proxyMaxRedirects cfg \<Longrightarrow> redirectLoop w cfg M H B u n r = (Inr r, [])"
  by (subst redirectLoop.simps) simp

lemma loop_induct [consumes 0, case_names exit pass]:
  assumes exit: "\<And>u n r. \<not> n \<le> proxyMaxRedirects cfg \<Longrightarrow> P u n r"
    and pass: "\<And>u n r. n \<le> proxyMaxRedirects cfg
                 \<Longrightarrow> (\<And>u' r'. fst (hop w cfg M H B u n) = Continue u' r' \<Longrightarrow> P u' (n + 1) (Some r'))
                 \<Longrightarrow> P u n r"
  shows "P u n r"
proof (induction "nat (proxyMaxRedirects cfg + 1 - n)" arbitrary: u n r rule: less_induct)
  case less
  show ?case
  proof (cases "n \<le> proxyMaxRedirects cfg")
    case False
    then show ?thesis by (rule exit)
  next
    case True
    show ?thesis
    proof (rule pass [OF True])
      fix u' r'
      show "P u' (n + 1) (Some r')"
        using True by (intro less) simp
    qed
  qed
qed


lemma loop_count:
  "length (fetches (snd (redirectLoop w cfg M H B u n r))) \<le> nat (proxyMaxRedirects cfg + 1 - n)"
proof (induction u n r rule: loop_induct [where cfg = cfg and w = w and M = M and H = H and B = B])
  case (exit u n r)
  then show ?case by (simp add: loop_exit)
next
  case (pass u n r)
  show ?case
  proof (cases "fst (hop w cfg M H B u n)")
    case (Continue u' r')
    from pass(2) [OF Continue] pass(1) Continue show ?thesis
      by (simp add: loop_fetches [OF pass(1)])
  qed (use pass(1) in \<open>simp_all add: loop_fetches\<close>)
qed

lemma loop_at:
  "j < length (fetches (snd (redirectLoop w cfg M H B u n r)))
   \<Longrightarrow> fetches (snd (redirectLoop w cfg M H B u n r)) ! j = (x, i)
   \<Longrightarrow> i = fetchOptions w M H B (n + int j)
       \<and> (case fst (hop w cfg M H B x (n + int j)) of
            Return rp \<Rightarrow> fst (redirectLoop w cfg M H B u n r) = Inl rp
                \<and> Suc j = length (fetches (snd (redirectLoop w cfg M H B u n r)))
          | Break f \<Rightarrow> fst (redirectLoop w cfg M H B u n r) = Inr (Some f)
                \<and> Suc j = length (fetches (snd (redirectLoop w cfg M H B u n r)))
          | Continue t r' \<Rightarrow> Suc j < length (fetches (snd (redirectLoop w cfg M H B u n r)))
                \<and> fst (fetches (snd (redirectLoop w cfg M H B u n r)) ! Suc j) = t)"
proof (induction u n r arbitrary: j rule: loop_induct [where cfg = cfg and w = w and M = M and H = H and B = B])
  case (exit u n r)
  then show ?case by (simp add: loop_exit)
next
  case (pass u n r)
  note le = pass(1)
  show ?case
  proof (cases j)
    case 0
    with pass(3,4) have xi: "x = u" "i = fetchOptions w M H B n" by (simp_all add: loop_fetches [OF le])
    show ?thesis
    proof (cases "fst (hop w cfg M H B u n)")
      case (Continue u' r')
      from hop_Continue [OF Continue] have n1: "n + 1 \<le> proxyMaxRedirects cfg" by simp
      show ?thesis
        using 0 xi Continue by (simp add: loop_fetches [OF le] loop_fetches [OF n1] loop_fst [OF le])
    qed (use 0 xi in \<open>simp_all add: loop_fetches [OF le] loop_fst [OF le]\<close>)
  next
    case (Suc j')
    show ?thesis
    proof (cases "fst (hop w cfg M H B u n)")
      case (Continue u' r')
      have idx: "n + 1 + int j' = n + int j" using Suc by simp
      from pass(3,4) Suc Continue
      have a: "j' < length (fetches (snd (redirectLoop w cfg M H B u' (n + 1) (Some r'))))"
        and b: "fetches (snd (redirectLoop w cfg M H B u' (n + 1) (Some r'))) ! j' = (x, i)"
        by (simp_all add: loop_fetches [OF le])
      from pass(2) [OF Continue a b] show ?thesis
        unfolding idx using Suc Continue
        by (simp add: loop_fetches [OF le] loop_fst [OF le] split: hop_result.splits)
    qed (use pass(3) Suc in \<open>simp_all add: loop_fetches [OF le]\<close>)
  qed
qed

lemma loop_GET:
  "1 \<le> n \<Longrightarrow> list_all (\<lambda>(x, i). init_method i = ''GET'' \<and> init_body i = None)
      (fetches (snd (redirectLoop w cfg M H B u n r)))"
proof (induction u n r rule: loop_induct [where cfg = cfg and w = w and M = M and H = H and B = B])
  case (exit u n r)
  then show ?case by (simp add: loop_exit)
next
  case (pass u n r)
  have here: "init_method (fetchOptions w M H B n) = ''GET'' \<and> init_body (fetchOptions w M H B n) = None"
    using pass(3) by (simp add: fetchOptions_def)
  show ?case
  proof (cases "fst (hop w cfg M H B u n)")
    case (Continue u' r')
    from pass(2) [OF Continue] pass(3) here Continue show ?thesis
      by (simp add: loop_fetches [OF pass(1)])
  qed (use pass(1) here in \<open>simp_all add: loop_fetches\<close>)
qed

lemma fetches_reads [simp]: "fetches (snd (readLoop cap rs chunks t)) = []"
  by (induction cap rs chunks t rule: readLoop.induct) (auto split: prod.splits)

lemma respond_fetches': "fetches (snd (respond w cfg resp)) = []"
proof (cases "body resp")
  case None
  then show ?thesis by (simp add: respond_def)
next
  case (Some stream)
  obtain x chunks ev where r: "readLoop (proxyMaxResponseSize cfg) stream [] 0 = ((x, chunks), ev)"
    by (metis prod.exhaust)
  have "fetches ev = []"
    using fetches_reads [of "proxyMaxResponseSize cfg" stream "[]" 0] by (simp add: r)
  then show ?thesis
    using Some r by (cases x) (simp_all add: respond_def)
qed

lemma respond_fetches: "respond w cfg resp = (r, ev) \<Longrightarrow> fetches ev = []"
  using respond_fetches' [of w cfg resp] by simp

lemma checkTarget_fetches [simp]: "fetches (snd (checkTarget w cfg proxyReq)) = []"
  by (simp add: checkTarget_def split: option.splits prod.splits sum.splits if_splits)

lemma checkTarget_accepted:
  "fst (checkTarget w cfg proxyReq) = None \<longleftrightarrow> accepted w cfg (req_url proxyReq)"
  by (auto simp: checkTarget_def accepted_def isAllowed_def endsWith_def
      split: option.splits prod.splits sum.splits if_splits)

lemma reads_append [simp]: "reads (xs @ ys) = reads xs @ reads ys"
  by (simp add: reads_def)

lemma reads_Dns [simp]: "reads (map Dns qs) = []"
  by (induction qs) (simp_all add: reads_def)

lemma reads_checkTarget [simp]: "reads (snd (checkTarget w cfg proxyReq)) = []"
  by (simp add: checkTarget_def split: option.splits prod.splits sum.splits if_splits)
     (simp add: reads_def)

lemma reads_hop [simp]: "reads (snd (hop w cfg M H B u n)) = []"
  by (simp add: hop_def reads_def split: fetch_result.splits option.splits list.splits prod.splits sum.splits)

lemma loop_snd:
  assumes "n \<le> proxyMaxRedirects cfg"
  shows "snd (redirectLoop w cfg M H B u n r) =
           (case fst (hop w cfg M H B u n) of
              Continue u' r' \<Rightarrow> snd (hop w cfg M H B u n) @ snd (redirectLoop w cfg M H B u' (n + 1) (Some r'))
            | _ \<Rightarrow> snd (hop w cfg M H B u n))"
  using assms
  by (subst redirectLoop.simps) (simp split: prod.splits hop_result.splits)

lemma reads_loop [simp]: "reads (snd (redirectLoop w cfg M H B u n r)) = []"
proof (induction u n r rule: loop_induct [where cfg = cfg and w = w and M = M and H = H and B = B])
  case (exit u n r)
  then show ?case by (simp add: loop_exit reads_def)
next
  case (pass u n r)
  show ?case
  proof (cases "fst (hop w cfg M H B u n)")
    case (Continue u' r')
    from pass(2) [OF Continue] Continue show ?thesis by (simp add: loop_snd [OF pass(1)])
  qed (use pass(1) in \<open>simp_all add: loop_snd\<close>)
qed

lemma proxy_post_rejected:
  "\<not> accepted w cfg (req_url proxyReq) \<Longrightarrow> fetches (snd (proxy_post w cfg proxyReq)) = []"
proof -
  assume "\<not> accepted w cfg (req_url proxyReq)"
  then obtain r where "fst (checkTarget w cfg proxyReq) = Some r"
    using checkTarget_accepted [of w cfg proxyReq] by (cases "fst (checkTarget w cfg proxyReq)") auto
  then obtain ev0 where c: "checkTarget w cfg proxyReq = (Some r, ev0)"
    by (cases "checkTarget w cfg proxyReq") auto
  have "fetches ev0 = []" using checkTarget_fetches [of w cfg proxyReq] c by simp
  then show ?thesis by (simp add: proxy_post_def c)
qed

lemma proxy_post_passed:
  assumes acc: "accepted w cfg (req_url proxyReq)"
  shows "fetches (snd (proxy_post w cfg proxyReq))
           = fetches (snd (redirectLoop w cfg (methodOf proxyReq) (outgoingHeaders proxyReq)
                           (req_body proxyReq) (req_url proxyReq) 0 None))"
    and "fst (proxy_post w cfg proxyReq) =
           (case fst (redirectLoop w cfg (methodOf proxyReq) (outgoingHeaders proxyReq)
                           (req_body proxyReq) (req_url proxyReq) 0 None) of
              Inl r \<Rightarrow> r
            | Inr None \<Rightarrow> JsonError 502 ''No response received''
            | Inr (Some resp) \<Rightarrow> fst (respond w cfg resp))"
    and "reads (snd (proxy_post w cfg proxyReq)) =
           (case fst (redirectLoop w cfg (methodOf proxyReq) (outgoingHeaders proxyReq)
                           (req_body proxyReq) (req_url proxyReq) 0 None) of
              Inr (Some resp) \<Rightarrow> reads (snd (respond w cfg resp))
            | _ \<Rightarrow> [])"
proof -
  from acc obtain ev0 where c: "checkTarget w cfg proxyReq = (None, ev0)"
    using checkTarget_accepted [of w cfg proxyReq] by (cases "checkTarget w cfg proxyReq") auto
  have f0: "fetches ev0 = []" using checkTarget_fetches [of w cfg proxyReq] c by simp
  have r0: "reads ev0 = []" using reads_checkTarget [of w cfg proxyReq] c by simp
  obtain y ev where l: "redirectLoop w cfg (methodOf proxyReq) (outgoingHeaders proxyReq)
                           (req_body proxyReq) (req_url proxyReq) 0 None = (y, ev)"
    by (cases "redirectLoop w cfg (methodOf proxyReq) (outgoingHeaders proxyReq)
                           (req_body proxyReq) (req_url proxyReq) 0 None")
  have r1: "reads ev = []"
    using reads_loop [of w cfg "methodOf proxyReq" "outgoingHeaders proxyReq" "req_body proxyReq"
        "req_url proxyReq" 0 None] l by simp
  have A: "fetches (snd (proxy_post w cfg proxyReq)) = fetches ev
      \<and> fst (proxy_post w cfg proxyReq) =
           (case y of Inl r \<Rightarrow> r | Inr None \<Rightarrow> JsonError 502 ''No response received''
            | Inr (Some resp) \<Rightarrow> fst (respond w cfg resp))
      \<and> reads (snd (proxy_post w cfg proxyReq)) =
           (case y of Inr (Some resp) \<Rightarrow> reads (snd (respond w cfg resp)) | _ \<Rightarrow> [])"
  proof (cases y)
    case (Inl r)
    with c l f0 r0 r1 show ?thesis by (simp add: proxy_post_def)
  next
    case (Inr ro)
    show ?thesis
    proof (cases ro)
      case None
      with c Inr l f0 r0 r1 show ?thesis by (simp add: proxy_post_def)
    next
      case (Some resp)
      obtain rp ev' where rs: "respond w cfg resp = (rp, ev')" by (cases "respond w cfg resp")
      from respond_fetches [OF rs] have "fetches ev' = []" .
      with c Inr Some l f0 r0 r1 rs show ?thesis by (simp add: proxy_post_def)
    qed
  qed
  from A show "fetches (snd (proxy_post w cfg proxyReq))
           = fetches (snd (redirectLoop w cfg (methodOf proxyReq) (outgoingHeaders proxyReq)
                           (req_body proxyReq) (req_url proxyReq) 0 None))" by (simp add: l)
  from A show "fst (proxy_post w cfg proxyReq) =
           (case fst (redirectLoop w cfg (methodOf proxyReq) (outgoingHeaders proxyReq)
                           (req_body proxyReq) (req_url proxyReq) 0 None) of
              Inl r \<Rightarrow> r
            | Inr None \<Rightarrow> JsonError 502 ''No response received''
            | Inr (Some resp) \<Rightarrow> fst (respond w cfg resp))" by (simp add: l)
  from A show "reads (snd (proxy_post w cfg proxyReq)) =
           (case fst (redirectLoop w cfg (methodOf proxyReq) (outgoingHeaders proxyReq)
                           (req_body proxyReq) (req_url proxyReq) 0 None) of
              Inr (Some resp) \<Rightarrow> reads (snd (respond w cfg resp))
            | _ \<Rightarrow> [])" by (simp add: l)
qed

lemma post_at:
  assumes k: "k < length (fetches (snd (proxy_post w cfg proxyReq)))"
    and at: "fetches (snd (proxy_post w cfg proxyReq)) ! k = (u, i)"
  shows "i = fetchOptions w (methodOf proxyReq) (outgoingHeaders proxyReq) (req_body proxyReq) (int k)
       \<and> (case fst (hop w cfg (methodOf proxyReq) (outgoingHeaders proxyReq) (req_body proxyReq) u (int k)) of
            Return rp \<Rightarrow> fst (proxy_post w cfg proxyReq) = rp
                \<and> reads (snd (proxy_post w cfg proxyReq)) = []
                \<and> Suc k = length (fetches (snd (proxy_post w cfg proxyReq)))
          | Break f \<Rightarrow> fst (proxy_post w cfg proxyReq) = fst (respond w cfg f)
                \<and> reads (snd (proxy_post w cfg proxyReq)) = reads (snd (respond w cfg f))
                \<and> Suc k = length (fetches (snd (proxy_post w cfg proxyReq)))
          | Continue t r' \<Rightarrow> Suc k < length (fetches (snd (proxy_post w cfg proxyReq)))
                \<and> fst (fetches (snd (proxy_post w cfg proxyReq)) ! Suc k) = t)"
proof -
  have acc: "accepted w cfg (req_url proxyReq)"
    using k proxy_post_rejected [of w cfg proxyReq] by (cases "accepted w cfg (req_url proxyReq)") auto
  note p = proxy_post_passed [OF acc]
  from loop_at [OF k [unfolded p(1)] at [unfolded p(1)]]
  show ?thesis
    unfolding p by (simp split: hop_result.splits)
qed

lemma post_redirect:
  assumes k: "k < length (fetches (snd (proxy_post w cfg proxyReq)))"
    and at: "fetches (snd (proxy_post w cfg proxyReq)) ! k = (u, i)"
    and rt: "redirect_target w k u i = Some target"
  shows "case fst (resolveAndValidate w target) of
           Inl err \<Rightarrow>
             fst (proxy_post w cfg proxyReq) = JsonError 400 (''Redirect blocked: '' @ message err)
             \<and> Suc k = length (fetches (snd (proxy_post w cfg proxyReq)))
         | Inr ok \<Rightarrow>
             if \<not> accepted w cfg target
             then fst (proxy_post w cfg proxyReq)
                    = JsonError 400 ''Redirect target domain is not in the allowlist''
                  \<and> Suc k = length (fetches (snd (proxy_post w cfg proxyReq)))
             else if proxyMaxRedirects cfg < int k + 1
             then fst (proxy_post w cfg proxyReq)
                    = JsonError 502 (''Too many redirects (max: '' @ showInt (proxyMaxRedirects cfg) @ '')'')
                  \<and> Suc k = length (fetches (snd (proxy_post w cfg proxyReq)))
             else Suc k < length (fetches (snd (proxy_post w cfg proxyReq)))
                  \<and> fst (fetches (snd (proxy_post w cfg proxyReq)) ! Suc k) = target"
proof -
  note a = post_at [OF k at]
  from a have i: "i = fetchOptions w (methodOf proxyReq) (outgoingHeaders proxyReq) (req_body proxyReq) (int k)"
    by simp
  from hop_redirect [of w "int k" u "methodOf proxyReq" "outgoingHeaders proxyReq" "req_body proxyReq" target cfg]
    rt [unfolded i]
  obtain resp where h: "fst (hop w cfg (methodOf proxyReq) (outgoingHeaders proxyReq) (req_body proxyReq) u (int k)) =
               (case fst (resolveAndValidate w target) of
                  Inl err \<Rightarrow> Return (JsonError 400 (''Redirect blocked: '' @ message err))
                | Inr ok \<Rightarrow>
                    if accepted w cfg target then countHop cfg (int k) target resp
                    else Return (JsonError 400 ''Redirect target domain is not in the allowlist''))"
    by auto
  note c = a [THEN conjunct2, unfolded h]
  show ?thesis
  proof (cases "fst (resolveAndValidate w target)")
    case (Inl err)
    with c show ?thesis by simp
  next
    case (Inr ok)
    show ?thesis
    proof (cases "accepted w cfg target")
      case False
      with c Inr show ?thesis by simp
    next
      case True
      show ?thesis
      proof (cases "proxyMaxRedirects cfg < int k + 1")
        case True
        with c Inr \<open>accepted w cfg target\<close> show ?thesis by (simp add: countHop_def)
      next
        case False
        with c Inr \<open>accepted w cfg target\<close> show ?thesis by (simp add: countHop_def)
      qed
    qed
  qed
qed


text \<open>
  Claim C7. A call issues at most \<open>maxRedirects + 1\<close> fetches. When the answer to the
  fetch numbered \<open>k\<close> is a redirect hop to a target that passes the checks, and the hop
  count \<open>k + 1\<close> exceeds the limit, the call answers 502 with the message that states the
  limit, and no further fetch is made.
\<close>

theorem redirect_loop_bounded:
  "length (fetches (snd (proxy_post w cfg proxyReq))) \<le> nat (proxyMaxRedirects cfg + 1)
   \<and> (\<forall>k u i target.
        k < length (fetches (snd (proxy_post w cfg proxyReq)))
        \<and> fetches (snd (proxy_post w cfg proxyReq)) ! k = (u, i)
        \<and> redirect_target w k u i = Some target
        \<and> accepted w cfg target
        \<and> proxyMaxRedirects cfg < int k + 1 \<longrightarrow>
        fst (proxy_post w cfg proxyReq)
          = JsonError 502 (''Too many redirects (max: '' @ showInt (proxyMaxRedirects cfg) @ '')'')
        \<and> Suc k = length (fetches (snd (proxy_post w cfg proxyReq))))"
proof (rule conjI)
  show "length (fetches (snd (proxy_post w cfg proxyReq))) \<le> nat (proxyMaxRedirects cfg + 1)"
  proof (cases "accepted w cfg (req_url proxyReq)")
    case True
    show ?thesis
      using loop_count [of w cfg "methodOf proxyReq" "outgoingHeaders proxyReq" "req_body proxyReq"
          "req_url proxyReq" 0 None]
      by (simp add: proxy_post_passed(1) [OF True])
  next
    case False
    then show ?thesis by (simp add: proxy_post_rejected)
  qed
next
  show "\<forall>k u i target.
        k < length (fetches (snd (proxy_post w cfg proxyReq)))
        \<and> fetches (snd (proxy_post w cfg proxyReq)) ! k = (u, i)
        \<and> redirect_target w k u i = Some target
        \<and> accepted w cfg target
        \<and> proxyMaxRedirects cfg < int k + 1 \<longrightarrow>
        fst (proxy_post w cfg proxyReq)
          = JsonError 502 (''Too many redirects (max: '' @ showInt (proxyMaxRedirects cfg) @ '')'')
        \<and> Suc k = length (fetches (snd (proxy_post w cfg proxyReq)))"
  proof (intro allI impI)
  fix k u i target
  assume a: "k < length (fetches (snd (proxy_post w cfg proxyReq)))
        \<and> fetches (snd (proxy_post w cfg proxyReq)) ! k = (u, i)
        \<and> redirect_target w k u i = Some target
        \<and> accepted w cfg target
        \<and> proxyMaxRedirects cfg < int k + 1"
  then have acc: "accepted w cfg target" and lim: "proxyMaxRedirects cfg < int k + 1" by simp_all
  from acc obtain ok where ok: "fst (resolveAndValidate w target) = Inr ok"
    by (cases "fst (resolveAndValidate w target)") (simp_all add: accepted_def)
  have "case fst (resolveAndValidate w target) of
           Inl err \<Rightarrow>
             fst (proxy_post w cfg proxyReq) = JsonError 400 (''Redirect blocked: '' @ message err)
             \<and> Suc k = length (fetches (snd (proxy_post w cfg proxyReq)))
         | Inr ok \<Rightarrow>
             if \<not> accepted w cfg target
             then fst (proxy_post w cfg proxyReq)
                    = JsonError 400 ''Redirect target domain is not in the allowlist''
                  \<and> Suc k = length (fetches (snd (proxy_post w cfg proxyReq)))
             else if proxyMaxRedirects cfg < int k + 1
             then fst (proxy_post w cfg proxyReq)
                    = JsonError 502 (''Too many redirects (max: '' @ showInt (proxyMaxRedirects cfg) @ '')'')
                  \<and> Suc k = length (fetches (snd (proxy_post w cfg proxyReq)))
             else Suc k < length (fetches (snd (proxy_post w cfg proxyReq)))
                  \<and> fst (fetches (snd (proxy_post w cfg proxyReq)) ! Suc k) = target"
    using a by (intro post_redirect [of k w cfg proxyReq u i target]) simp_all
  with ok acc lim show "fst (proxy_post w cfg proxyReq)
          = JsonError 502 (''Too many redirects (max: '' @ showInt (proxyMaxRedirects cfg) @ '')'')
        \<and> Suc k = length (fetches (snd (proxy_post w cfg proxyReq)))"
    by simp
qed
qed

text \<open>
  Claim C8. The first fetch is made at the request's URL with the request's method in upper
  case (GET when none is given) and carries the body, as JSON text, exactly when the request
  has one and the method is neither GET nor HEAD. Every later fetch, whatever the redirect
  status that led to it, is a GET without a body.
\<close>

theorem redirect_fetches_are_GET:
  "case fetches (snd (proxy_post w cfg proxyReq)) of
     [] \<Rightarrow> True
   | (u0, i0) # rest \<Rightarrow>
       u0 = req_url proxyReq
       \<and> init_method i0 = toUpperCase (case req_method proxyReq of Some (c # cs) \<Rightarrow> c # cs | _ \<Rightarrow> ''GET'')
       \<and> init_body i0 = (if req_body proxyReq \<noteq> None \<and> init_method i0 \<notin> set [''GET'', ''HEAD'']
                          then map_option (JSON_stringify w) (req_body proxyReq) else None)
       \<and> list_all (\<lambda>(u, i). init_method i = ''GET'' \<and> init_body i = None) rest"
proof (cases "accepted w cfg (req_url proxyReq)")
  case False
  then show ?thesis by (simp add: proxy_post_rejected)
next
  case True
  note p = proxy_post_passed(1) [OF True]
  show ?thesis
  proof (cases "0 \<le> proxyMaxRedirects cfg")
    case False
    then show ?thesis by (simp add: p loop_exit)
  next
    case le: True
    have rest: "list_all (\<lambda>(u, i). init_method i = ''GET'' \<and> init_body i = None)
        (case fst (hop w cfg (methodOf proxyReq) (outgoingHeaders proxyReq) (req_body proxyReq) (req_url proxyReq) 0) of
              Continue u' r' \<Rightarrow> fetches (snd (redirectLoop w cfg (methodOf proxyReq) (outgoingHeaders proxyReq)
                                     (req_body proxyReq) u' (0 + 1) (Some r')))
            | _ \<Rightarrow> [])"
      using loop_GET [of "0 + 1" w cfg "methodOf proxyReq" "outgoingHeaders proxyReq" "req_body proxyReq"]
      by (simp split: hop_result.splits)
    show ?thesis
      unfolding p loop_fetches [OF le] using rest
      by (simp add: fetchOptions_def methodOf_def)
  qed
qed

lemma site_public: "fst (resolveAndValidate (w_fetch f) ''https://example.com/'')
     = Inr \<lparr>res_hostname = ''example.com'', res_ip = ''93.184.216.34''\<rparr>"
proof -
  have r4: "\<not> ipv4Regex_test ''example.com''" by code_simp
  have r6: "\<not> ipv6Regex_test ''example.com''" by code_simp
  have nb: "toLowerCase ''example.com'' \<notin> set BLOCKED_HOSTNAMES" by code_simp
  have pub: "isPrivateIP ''93.184.216.34'' = Inr False"
    using isPrivateIP_dotted_quad [of "''93''" "''184''" "''216''" "''34''"] by (simp add: octet_defs)
  have ch: "fst (chooseIP (w_fetch f) ''example.com'') = Some ''93.184.216.34''"
    by (simp add: chooseIP_def r4 r6 resolveDns_def w_fetch_def)
  show ?thesis
    unfolding resolveAndValidate_fst
    by (simp add: w_fetch_def site_URL_def nb ch [unfolded w_fetch_def] pub)
qed


lemma site_accepted: "proxyAllowedDomains cfg = [] \<Longrightarrow> accepted (w_fetch f) cfg ''https://example.com/''"
  by (simp add: accepted_def site_public)

lemma first_fetch:
  assumes "accepted w cfg (req_url proxyReq)" and "0 \<le> proxyMaxRedirects cfg"
  shows "\<exists>rest. fetches (snd (proxy_post w cfg proxyReq)) =
           (req_url proxyReq,
            fetchOptions w (methodOf proxyReq) (outgoingHeaders proxyReq) (req_body proxyReq) 0) # rest"
  by (simp add: proxy_post_passed(1) [OF assms(1)] loop_fetches [OF assms(2)])

lemma location_get: "headers_get [(''location'', l)] ''location'' = Some l"
proof -
  have "toLowerCase ''location'' = ''location''" by code_simp
  then show ?thesis by (simp add: headers_get_def)
qed

lemma redirect_to_target:
  "st \<in> set [301, 302, 303, 307, 308] \<Longrightarrow> l \<noteq> []
     \<Longrightarrow> redirect_target (w_fetch (redirect_to st l)) k u i = Some l"
  by (simp add: redirect_target_def w_fetch_def redirect_to_def location_get)


theorem redirect_loop_bounded_witness:
  "length (fetches (snd (proxy_post (w_fetch (redirect_to 307 ''https://example.com/''))
             (cfg0\<lparr>proxyMaxRedirects := 0\<rparr>) req0))) \<le> 1
   \<and> fst (proxy_post (w_fetch (redirect_to 307 ''https://example.com/''))
             (cfg0\<lparr>proxyMaxRedirects := 0\<rparr>) req0)
       = JsonError 502 ''Too many redirects (max: 0)''"
proof -
  let ?w = "w_fetch (redirect_to 307 ''https://example.com/'')"
  let ?c = "cfg0\<lparr>proxyMaxRedirects := 0\<rparr>"
  have acc: "accepted ?w ?c ''https://example.com/''"
    by (rule site_accepted) (simp add: cfg0_def)
  then have acc0: "accepted ?w ?c (req_url req0)" by (simp add: req0_def)
  from first_fetch [OF acc0] obtain rest where
    fs: "fetches (snd (proxy_post ?w ?c req0)) =
           (req_url req0, fetchOptions ?w (methodOf req0) (outgoingHeaders req0) (req_body req0) 0) # rest"
    by (auto simp: cfg0_def)
  have rt: "redirect_target ?w 0 (req_url req0)
              (fetchOptions ?w (methodOf req0) (outgoingHeaders req0) (req_body req0) 0)
            = Some ''https://example.com/''"
    by (rule redirect_to_target) simp_all
  have sh: "showInt 0 = ''0''" by code_simp
  note b = redirect_loop_bounded [of ?w ?c req0]
  note t = b [THEN conjunct2, THEN spec, THEN spec, THEN spec,
      THEN spec, THEN mp, of 0 "req_url req0"
      "fetchOptions ?w (methodOf req0) (outgoingHeaders req0) (req_body req0) 0" "''https://example.com/''"]
  have "fst (proxy_post ?w ?c req0)
          = JsonError 502 (''Too many redirects (max: '' @ showInt (proxyMaxRedirects ?c) @ '')'')
        \<and> Suc 0 = length (fetches (snd (proxy_post ?w ?c req0)))"
    by (rule t) (simp add: fs rt acc)
  moreover from b have "length (fetches (snd (proxy_post ?w ?c req0))) \<le> 1" by simp
  ultimately show ?thesis by (simp add: sh)
qed

theorem redirect_fetches_are_GET_witness:
  "\<exists>i0 rest. fetches (snd (proxy_post (w_fetch (redirect_to 307 ''https://example.com/'')) cfg0 req0))
       = (''https://example.com/'', i0) # rest
     \<and> init_method i0 = ''POST'' \<and> init_body i0 = Some ''null''
     \<and> list_all (\<lambda>(u, i). init_method i = ''GET'' \<and> init_body i = None) rest"
proof -
  let ?w = "w_fetch (redirect_to 307 ''https://example.com/'')"
  have acc: "accepted ?w cfg0 (req_url req0)"
    using site_accepted [of cfg0] by (simp add: cfg0_def req0_def)
  from first_fetch [OF acc] obtain rest where
    fs: "fetches (snd (proxy_post ?w cfg0 req0)) =
           (req_url req0, fetchOptions ?w (methodOf req0) (outgoingHeaders req0) (req_body req0) 0) # rest"
    by (auto simp: cfg0_def)
  have up: "toUpperCase ''post'' = ''POST''" by code_simp
  have "init_method (fetchOptions ?w (methodOf req0) (outgoingHeaders req0) (req_body req0) 0) = ''POST''
     \<and> init_body (fetchOptions ?w (methodOf req0) (outgoingHeaders req0) (req_body req0) 0) = Some ''null''
     \<and> list_all (\<lambda>(u, i). init_method i = ''GET'' \<and> init_body i = None) rest"
    using redirect_fetches_are_GET [where w = ?w and cfg = cfg0 and proxyReq = req0] unfolding fs
    by (simp add: req0_def up w_fetch_def)
  with fs show ?thesis by (simp add: req0_def)
qed

lemma round_double_ge:
  assumes "2 ^ 53 \<le> q"
  shows "round_double q = PInf \<or> (\<exists>r. round_double q = Fin r \<and> 2 ^ 53 \<le> r)"
proof -
  have qpos: "0 < q" using assms by (rule less_le_trans [rotated]) simp
  have "(2::rat) powi 53 \<le> q" using assms by simp
  from binexp_ge [OF qpos this] have e53: "53 \<le> binexp q" .
  define e where "e = max (binexp q) (- 1022)"
  have e: "e = binexp q" using e53 by (simp add: e_def)
  define s :: rat where "s = 2 powi (e - 52)"
  have spos: "0 < s" by (simp add: s_def)
  have "2 powi e \<le> q" using binexp_lower [OF qpos] e by simp
  moreover have "(2::rat) powi e = 2 ^ 52 * s"
    unfolding s_def using power_int_add [of "2::rat" 52 "e - 52"] by simp
  ultimately have "2 ^ 52 * s \<le> q" by simp
  then have "(2::rat) ^ 52 \<le> q / s" using spos by (simp add: pos_le_divide_eq)
  then have "of_int (2 ^ 52) \<le> q / s" by simp
  from roundTiesToEven_ge [OF this] have z: "2 ^ 52 \<le> roundTiesToEven (q / s)" .
  define r where "r = of_int (roundTiesToEven (q / s)) * s"
  have "(2::rat) ^ 52 \<le> of_int (roundTiesToEven (q / s))"
    using z by (metis of_int_le_iff of_int_numeral of_int_power)
  then have "2 ^ 52 * s \<le> r" using spos by (simp add: r_def)
  moreover have "(2::rat) ^ 53 \<le> 2 ^ 52 * s"
  proof -
    have "(1::int) \<le> e - 52" using e53 e by simp
    then have "(2::rat) powi 1 \<le> 2 powi (e - 52)" by (intro power_int_increasing) simp_all
    then show ?thesis by (simp add: s_def)
  qed
  ultimately have r53: "2 ^ 53 \<le> r" by simp
  have rd: "round_double q = (if 2 powi 1024 \<le> r then PInf else Fin r)"
    using qpos by (simp add: round_double_def Let_def e_def [symmetric] s_def [symmetric] r_def [symmetric])
  show ?thesis using r53 by (simp add: rd)
qed

lemma decimal_radix_digit: "isDecimalDigit c \<Longrightarrow> isRadixDigit 10 c"
  by (auto simp: isDecimalDigit_def isRadixDigit_def isHexDigit_def digitValue_def)

lemma parseInt_digits:
  assumes ne: "v \<noteq> []" and dg: "list_all isDecimalDigit v"
  shows "parseInt v 10 = round_double (of_nat (radixValue 10 v))"
proof -
  from ne obtain c cs where v: "v = c # cs" by (cases v) simp_all
  with dg have c: "isDecimalDigit c" by simp
  note dc = digit_char [OF c]
  have dw: "dropWhile isStrWhiteSpaceChar v = v" using v dc by simp
  have tw: "takeWhile (isRadixDigit 10) v = v"
    using dg decimal_radix_digit by (simp add: takeWhile_eq_all_conv list_all_iff)
  have sg: "c \<noteq> CHR ''+''" "c \<noteq> CHR ''-''" using dc by simp_all
  have t: "(case v of [] \<Rightarrow> False | c # x \<Rightarrow> c = CHR ''-'') = False"
    using sg by (simp add: v)
  have t1: "(case v of [] \<Rightarrow> [] | c # r \<Rightarrow> if c = CHR ''+'' \<or> c = CHR ''-'' then r else v) = v"
    using sg by (simp add: v)
  show ?thesis
    by (simp only: parseInt_def Let_def dw t t1) (simp add: tw ne)
qed

lemma declared_too_large:
  assumes ne: "v \<noteq> []" and dg: "list_all isDecimalDigit v"
    and big: "cap < radixValue 10 v" and cap: "cap < 2 ^ 53"
  shows "js_gt (parseInt v 10) (Fin (of_nat cap))"
proof (cases "radixValue 10 v < 2 ^ 53")
  case True
  then show ?thesis
    using big by (simp add: parseInt_digits [OF ne dg] round_double_of_nat)
next
  case False
  then have "(2::nat) ^ 53 \<le> radixValue 10 v" by simp
  then have "(of_nat (2 ^ 53) :: rat) \<le> of_nat (radixValue 10 v)" by (simp only: of_nat_le_iff)
  then have "(2::rat) ^ 53 \<le> of_nat (radixValue 10 v)" by simp
  from round_double_ge [OF this]
  have d: "round_double (of_nat (radixValue 10 v)) = PInf
     \<or> (\<exists>r. round_double (of_nat (radixValue 10 v)) = Fin r \<and> 2 ^ 53 \<le> r)" .
  have c: "(of_nat cap :: rat) < 2 ^ 53"
    using cap by (metis of_nat_less_iff of_nat_numeral of_nat_power)
  from d show ?thesis
  proof
    assume "round_double (of_nat (radixValue 10 v)) = PInf"
    then show ?thesis by (simp add: parseInt_digits [OF ne dg] js_gt_def)
  next
    assume "\<exists>r. round_double (of_nat (radixValue 10 v)) = Fin r \<and> 2 ^ 53 \<le> r"
    then obtain r where "round_double (of_nat (radixValue 10 v)) = Fin r" "2 ^ 53 \<le> r" by blast
    with c show ?thesis by (simp add: parseInt_digits [OF ne dg])
  qed
qed

lemma readLoop_TooLarge:
  "t + length (concat pre) \<le> cap \<Longrightarrow> cap < t + length (concat pre) + length v
     \<Longrightarrow> readLoop cap (map Chunk pre @ Chunk v # rest) chunks t
           = ((TooLarge, chunks @ pre), replicate (Suc (length pre)) Read @ [Cancel])"
proof (induction pre arbitrary: chunks t)
  case Nil
  then show ?case by simp
next
  case (Cons p pre)
  from Cons.prems have a: "\<not> cap < t + length p" by simp
  from Cons.prems have "(t + length p) + length (concat pre) \<le> cap"
    "cap < (t + length p) + length (concat pre) + length v" by simp_all
  from Cons.IH [OF this] a show ?case by simp
qed

lemma readLoop_held:
  "readLoop cap rs chunks t = ((x, cs), ev)
     \<Longrightarrow> \<exists>new. cs = chunks @ new \<and> (t \<le> cap \<longrightarrow> t + length (concat new) \<le> cap)
              \<and> (x = ReadDone \<longrightarrow> rs = map Chunk new)"
proof (induction cap rs chunks t arbitrary: x cs ev rule: readLoop.induct)
  case (1 cap chunks totalSize)
  then show ?case by simp
next
  case (2 cap e rs chunks totalSize)
  then show ?case by auto
next
  case (3 cap v rs chunks totalSize)
  show ?case
  proof (cases "totalSize + length v > cap")
    case True
    with 3(2) show ?thesis by simp
  next
    case False
    obtain x' cs' ev' where r: "readLoop cap rs (chunks @ [v]) (totalSize + length v) = ((x', cs'), ev')"
      by (metis prod.exhaust)
    from 3(2) False r have eq: "x' = x" "cs' = cs" by simp_all
    from 3(1) [OF False r] obtain new where
      n: "cs' = (chunks @ [v]) @ new"
        "totalSize + length v \<le> cap \<longrightarrow> totalSize + length v + length (concat new) \<le> cap"
        "x' = ReadDone \<longrightarrow> rs = map Chunk new" by blast
    show ?thesis
      using n False eq by (intro exI [of _ "v # new"]) simp
  qed
qed

lemma reads_readLoop: "reads (snd (readLoop cap rs chunks t)) = snd (readLoop cap rs chunks t)"
  by (induction cap rs chunks t rule: readLoop.induct) (auto simp: reads_def split: prod.splits)

lemma respond_declared:
  assumes "headers_get (headers resp) ''content-length'' = Some v"
    and "v \<noteq> []" and "list_all isDecimalDigit v"
    and "proxyMaxResponseSize cfg < radixValue 10 v" and "proxyMaxResponseSize cfg < 2 ^ 53"
  shows "respond w cfg resp = (JsonError 502 ''Response too large'', [])"
  using declared_too_large [OF assms(2-5)] assms(1,2) by (simp add: respond_def)

lemma respond_streamed:
  assumes "body resp = Some (map Chunk pre @ Chunk v # rest)"
    and "length (concat pre) \<le> proxyMaxResponseSize cfg"
    and "proxyMaxResponseSize cfg < length (concat pre) + length v"
  shows "fst (respond w cfg resp) = JsonError 502 ''Response too large''
       \<and> (snd (respond w cfg resp) = [] \<or> snd (respond w cfg resp) = replicate (Suc (length pre)) Read @ [Cancel])
       \<and> (headers_get (headers resp) ''content-length'' = None
            \<longrightarrow> snd (respond w cfg resp) = replicate (Suc (length pre)) Read @ [Cancel])"
proof -
  have r: "readLoop (proxyMaxResponseSize cfg) (map Chunk pre @ Chunk v # rest) [] 0
           = ((TooLarge, [] @ pre), replicate (Suc (length pre)) Read @ [Cancel])"
    using assms(2,3) by (intro readLoop_TooLarge) simp_all
  show ?thesis
    using assms(1) r by (simp add: respond_def)
qed

lemma respond_ok:
  assumes "fst (respond w cfg resp) = JsonOk pr"
  shows "case body resp of
           None \<Rightarrow> pr = proxyResponse w resp []
         | Some stream \<Rightarrow>
             \<exists>chunks. stream = map Chunk chunks \<and> length (concat chunks) \<le> proxyMaxResponseSize cfg
               \<and> pr = proxyResponse w resp (TextDecoder_decode w (concat chunks))"
proof (cases "body resp")
  case None
  with assms show ?thesis by (simp add: respond_def split: if_splits)
next
  case (Some stream)
  obtain x cs ev where r: "readLoop (proxyMaxResponseSize cfg) stream [] 0 = ((x, cs), ev)"
    by (metis prod.exhaust)
  from assms Some r have x: "x = ReadDone" and pr: "pr = proxyResponse w resp (TextDecoder_decode w (concat cs))"
    by (cases x; simp add: respond_def split: if_splits)+
  from readLoop_held [OF r] x obtain new where "cs = new" "length (concat new) \<le> proxyMaxResponseSize cfg"
    "stream = map Chunk new" by auto
  with Some pr show ?thesis by auto
qed

lemma reads_respond: "reads (snd (respond w cfg resp)) = snd (respond w cfg resp)"
proof (cases "body resp")
  case None
  then show ?thesis by (simp add: respond_def reads_def)
next
  case (Some stream)
  obtain x cs ev where r: "readLoop (proxyMaxResponseSize cfg) stream [] 0 = ((x, cs), ev)"
    by (metis prod.exhaust)
  have "reads ev = ev" using reads_readLoop [of "proxyMaxResponseSize cfg" stream "[]" 0] r by simp
  then show ?thesis
    using Some r by (cases x) (simp_all add: respond_def reads_def)
qed

lemma post_final:
  assumes ne: "fetches (snd (proxy_post w cfg proxyReq)) \<noteq> []"
    and la: "last (fetches (snd (proxy_post w cfg proxyReq))) = (u, i)"
    and fin: "final_response w (length (fetches (snd (proxy_post w cfg proxyReq))) - 1) u i = Some resp"
  shows "fst (proxy_post w cfg proxyReq) = fst (respond w cfg resp)
       \<and> reads (snd (proxy_post w cfg proxyReq)) = snd (respond w cfg resp)"
proof -
  define k where "k = length (fetches (snd (proxy_post w cfg proxyReq))) - 1"
  have k: "k < length (fetches (snd (proxy_post w cfg proxyReq)))" using ne by (simp add: k_def)
  have at: "fetches (snd (proxy_post w cfg proxyReq)) ! k = (u, i)"
    using la ne by (simp add: k_def last_conv_nth)
  note a = post_at [OF k at]
  from a have i: "i = fetchOptions w (methodOf proxyReq) (outgoingHeaders proxyReq) (req_body proxyReq) (int k)"
    by simp
  have "fst (hop w cfg (methodOf proxyReq) (outgoingHeaders proxyReq) (req_body proxyReq) u (int k)) = Break resp"
    using fin [folded k_def, unfolded i] by (intro hop_final) simp
  with a show ?thesis by (simp add: reads_respond)
qed

text \<open>
  Claim C6. Let \<open>resp\<close> be the final response of a call, the answer to its last fetch,
  and let the cap be below \<open>2^53\<close>, so that it is a Number. If \<open>resp\<close> declares, in decimal
  digits, a \<^verbatim>\<open>Content-Length\<close> above the cap, the call answers 502 and has read nothing. If
  the chunks \<open>pre\<close> of the body stay within the cap and the next chunk \<open>v\<close> passes it, the
  call answers 502; its reads are those of \<open>pre\<close> and of \<open>v\<close>, followed by the cancel, and
  no later chunk is read (or it has read nothing, when a declared length ended the call
  before; with no \<^verbatim>\<open>Content-Length\<close> the reads and the cancel are there). If the call
  answers with a relay response, the whole body is within the cap.
\<close>

theorem response_size_capped:
  assumes "fetches (snd (proxy_post w cfg proxyReq)) \<noteq> []"
    and "last (fetches (snd (proxy_post w cfg proxyReq))) = (u, i)"
    and "final_response w (length (fetches (snd (proxy_post w cfg proxyReq))) - 1) u i = Some resp"
    and "proxyMaxResponseSize cfg < 2 ^ 53"
  shows
    "(\<forall>v. headers_get (headers resp) ''content-length'' = Some v \<and> v \<noteq> []
          \<and> list_all isDecimalDigit v \<and> proxyMaxResponseSize cfg < radixValue 10 v \<longrightarrow>
          fst (proxy_post w cfg proxyReq) = JsonError 502 ''Response too large''
          \<and> reads (snd (proxy_post w cfg proxyReq)) = [])
     \<and> (\<forall>pre v rest. body resp = Some (map Chunk pre @ Chunk v # rest)
          \<and> length (concat pre) \<le> proxyMaxResponseSize cfg
          \<and> proxyMaxResponseSize cfg < length (concat pre) + length v \<longrightarrow>
          fst (proxy_post w cfg proxyReq) = JsonError 502 ''Response too large''
          \<and> (reads (snd (proxy_post w cfg proxyReq)) = []
              \<or> reads (snd (proxy_post w cfg proxyReq)) = replicate (Suc (length pre)) Read @ [Cancel])
          \<and> (headers_get (headers resp) ''content-length'' = None \<longrightarrow>
                reads (snd (proxy_post w cfg proxyReq)) = replicate (Suc (length pre)) Read @ [Cancel]))
     \<and> (\<forall>pr. fst (proxy_post w cfg proxyReq) = JsonOk pr \<longrightarrow>
          (case body resp of
             None \<Rightarrow> True
           | Some stream \<Rightarrow>
               \<exists>chunks. stream = map Chunk chunks
                 \<and> length (concat chunks) \<le> proxyMaxResponseSize cfg
                 \<and> out_body pr = parsedBody w resp (TextDecoder_decode w (concat chunks))))"
proof -
  note p = post_final [OF assms(1-3)]
  note p1 = p [THEN conjunct1] and p2 = p [THEN conjunct2]
  have A: "fst (proxy_post w cfg proxyReq) = JsonError 502 ''Response too large''
          \<and> reads (snd (proxy_post w cfg proxyReq)) = []"
    if "headers_get (headers resp) ''content-length'' = Some v \<and> v \<noteq> []
          \<and> list_all isDecimalDigit v \<and> proxyMaxResponseSize cfg < radixValue 10 v" for v
    using respond_declared [of resp v cfg w] that assms(4) p by simp
  have B: "fst (proxy_post w cfg proxyReq) = JsonError 502 ''Response too large''
          \<and> (reads (snd (proxy_post w cfg proxyReq)) = []
              \<or> reads (snd (proxy_post w cfg proxyReq)) = replicate (Suc (length pre)) Read @ [Cancel])
          \<and> (headers_get (headers resp) ''content-length'' = None \<longrightarrow>
                reads (snd (proxy_post w cfg proxyReq)) = replicate (Suc (length pre)) Read @ [Cancel])"
    if "body resp = Some (map Chunk pre @ Chunk v # rest)
          \<and> length (concat pre) \<le> proxyMaxResponseSize cfg
          \<and> proxyMaxResponseSize cfg < length (concat pre) + length v" for pre v rest
    using respond_streamed [of resp pre v rest cfg w] that unfolding p1 p2 by blast
  have C: "case body resp of
             None \<Rightarrow> True
           | Some stream \<Rightarrow>
               \<exists>chunks. stream = map Chunk chunks
                 \<and> length (concat chunks) \<le> proxyMaxResponseSize cfg
                 \<and> out_body pr = parsedBody w resp (TextDecoder_decode w (concat chunks))"
    if "fst (proxy_post w cfg proxyReq) = JsonOk pr" for pr
    using respond_ok [of w cfg resp pr] that unfolding p1
    by (auto simp: proxyResponse_def split: option.splits)
  from A B C show ?thesis by blast
qed

lemma only_fetch:
  assumes acc: "accepted w cfg (req_url proxyReq)" and le: "0 \<le> proxyMaxRedirects cfg"
    and fin: "final_response w 0 (req_url proxyReq)
                (fetchOptions w (methodOf proxyReq) (outgoingHeaders proxyReq) (req_body proxyReq) 0) = Some resp"
  shows "fetches (snd (proxy_post w cfg proxyReq)) =
           [(req_url proxyReq,
             fetchOptions w (methodOf proxyReq) (outgoingHeaders proxyReq) (req_body proxyReq) 0)]"
proof -
  have "fst (hop w cfg (methodOf proxyReq) (outgoingHeaders proxyReq) (req_body proxyReq) (req_url proxyReq) 0)
          = Break resp"
    using fin by (intro hop_final) simp
  then show ?thesis
    by (simp add: proxy_post_passed(1) [OF acc] loop_fetches [OF le])
qed

lemma answer_final:
  "status resp \<notin> set [301, 302, 303, 307, 308]
     \<Longrightarrow> final_response (w_fetch (answer_with resp)) k u i = Some resp"
  by (simp add: final_response_def w_fetch_def answer_with_def)

theorem response_size_capped_witness:
  "fst (proxy_post (w_fetch (answer_with long_body)) cfg0 req0) = JsonError 502 ''Response too large''
   \<and> reads (snd (proxy_post (w_fetch (answer_with long_body)) cfg0 req0)) = [Read, Read, Read, Cancel]"
proof -
  let ?w = "w_fetch (answer_with long_body)"
  let ?i = "fetchOptions ?w (methodOf req0) (outgoingHeaders req0) (req_body req0) 0"
  have acc: "accepted ?w cfg0 (req_url req0)"
    using site_accepted [of cfg0] by (simp add: cfg0_def req0_def)
  have le: "0 \<le> proxyMaxRedirects cfg0" by (simp add: cfg0_def)
  have fin: "final_response ?w k u i = Some long_body" for k u i
    by (rule answer_final) (simp add: long_body_def)
  note fs = only_fetch [OF acc le fin]
  have a1: "fetches (snd (proxy_post ?w cfg0 req0)) \<noteq> []" by (simp add: fs)
  have a2: "last (fetches (snd (proxy_post ?w cfg0 req0))) = (req_url req0, ?i)" by (simp add: fs)
  have a4: "proxyMaxResponseSize cfg0 < 2 ^ 53" by (simp add: cfg0_def)
  note t = response_size_capped [OF a1 a2 fin a4, THEN conjunct2, THEN conjunct1,
      THEN spec, THEN spec, THEN spec, THEN mp,
      of "[''abc'', ''defgh'']" "''ijklm''" "[Chunk ''nopqr'']"]
  have nh: "headers_get (headers long_body) ''content-length'' = None"
    by (simp add: headers_get_def long_body_def toLowerCase_def)
  have "fst (proxy_post ?w cfg0 req0) = JsonError 502 ''Response too large''
          \<and> (reads (snd (proxy_post ?w cfg0 req0)) = []
              \<or> reads (snd (proxy_post ?w cfg0 req0)) = replicate (Suc (length [''abc'', ''defgh''])) Read @ [Cancel])
          \<and> (headers_get (headers long_body) ''content-length'' = None \<longrightarrow>
                reads (snd (proxy_post ?w cfg0 req0)) = replicate (Suc (length [''abc'', ''defgh''])) Read @ [Cancel])"
    by (rule t) (simp add: long_body_def cfg0_def)
  with nh show ?thesis by (simp add: numeral_2_eq_2)
qed

lemma map_of_update_key:
  "map_of (map (\<lambda>(a, b). if a = k then (a, v) else (a, b)) obj) k'
      = (if k' = k \<and> k \<in> fst ` set obj then Some v else map_of obj k')"
proof (induction obj)
  case Nil
  then show ?case by simp
next
  case (Cons h obj)
  obtain a b where h: "h = (a, b)" by (cases h)
  show ?case
    unfolding h using Cons.IH by (cases "a = k"; cases "k' = k"; simp)
qed

lemma map_of_snoc_key:
  "k \<notin> fst ` set obj \<Longrightarrow> map_of (obj @ [(k, v)]) k' = (if k' = k then Some v else map_of obj k')"
proof (induction obj)
  case Nil
  then show ?case by simp
next
  case (Cons h obj)
  obtain a b where h: "h = (a, b)" by (cases h)
  from Cons.prems have "k \<notin> fst ` set obj" and "a \<noteq> k" by (auto simp: h)
  with Cons.IH show ?case
    unfolding h by (cases "k' = a") simp_all
qed

lemma map_of_obj_set:
  "map_of (obj_set obj k v) k' =
     (if k = ''__proto__'' then map_of obj k' else if k' = k then Some v else map_of obj k')"
proof (cases "k = ''__proto__''")
  case True
  then show ?thesis by (simp only: obj_set_def simp_thms if_True)
next
  case np: False
  show ?thesis
  proof (cases "k \<in> fst ` set obj")
    case True
    then have "k \<in> set (map fst obj)" by simp
    then have "obj_set obj k v = map (\<lambda>(k', v'). if k' = k then (k', v) else (k', v')) obj"
      using np by (simp only: obj_set_def if_True if_False)
    then show ?thesis
      using np True by (simp only: map_of_update_key if_False) simp
  next
    case False
    then have "k \<notin> set (map fst obj)" by simp
    then have "obj_set obj k v = obj @ [(k, v)]"
      using np by (simp only: obj_set_def if_True if_False)
    then show ?thesis
      using np by (simp only: map_of_snoc_key [OF False] if_False)
  qed
qed

lemma keys_obj_set:
  "fst ` set (obj_set obj k v) = (if k = ''__proto__'' then fst ` set obj else insert k (fst ` set obj))"
  unfolding obj_set_def by (auto simp: image_iff split: if_splits) force+

lemma responseHeaders_keys_gen:
  "fst ` set (foldl (\<lambda>obj (key, v). if toLowerCase key \<noteq> ''set-cookie'' then obj_set obj key v else obj) acc hs)
     = fst ` set acc \<union> {k \<in> fst ` set hs. toLowerCase k \<noteq> ''set-cookie'' \<and> k \<noteq> ''__proto__''}"
proof (induction hs arbitrary: acc)
  case Nil
  then show ?case by simp
next
  case (Cons h hs)
  obtain k v where h: "h = (k, v)" by (cases h)
  show ?case
    unfolding h foldl_Cons prod.case Cons.IH
    by (simp only: keys_obj_set split: if_splits) auto
qed

lemma responseHeaders_keys:
  "fst ` set (responseHeaders hs)
     = {k \<in> fst ` set hs. toLowerCase k \<noteq> ''set-cookie'' \<and> k \<noteq> ''__proto__''}"
  unfolding responseHeaders_def responseHeaders_keys_gen by simp

lemma responseHeaders_value_gen:
  assumes "toLowerCase k \<noteq> ''set-cookie''" and "k \<noteq> ''__proto__''"
  shows "map_of (foldl (\<lambda>obj (key, v). if toLowerCase key \<noteq> ''set-cookie'' then obj_set obj key v else obj) acc hs) k
     = (case map_of (rev hs) k of Some v \<Rightarrow> Some v | None \<Rightarrow> map_of acc k)"
proof (induction hs arbitrary: acc)
  case Nil
  then show ?case by simp
next
  case (Cons h hs)
  obtain k1 v1 where h: "h = (k1, v1)" by (cases h)
  have step: "map_of (if toLowerCase k1 \<noteq> ''set-cookie'' then obj_set acc k1 v1 else acc) k
      = (if k = k1 then Some v1 else map_of acc k)"
    using assms by (auto simp: map_of_obj_set)
  show ?case
    unfolding h foldl_Cons prod.case Cons.IH step
    by (simp add: map_add_def split: option.splits)
qed

lemma responseHeaders_value:
  assumes "toLowerCase k \<noteq> ''set-cookie''" and "k \<noteq> ''__proto__''"
  shows "obj_get (responseHeaders hs) k = map_of (rev hs) k"
  unfolding obj_get_def responseHeaders_def responseHeaders_value_gen [OF assms]
  by (simp split: option.splits)

lemma responseHeaders_no_set_cookie:
  "(k, v) \<in> set (responseHeaders hs) \<Longrightarrow> toLowerCase k \<noteq> ''set-cookie''"
proof -
  assume "(k, v) \<in> set (responseHeaders hs)"
  then have "k \<in> fst ` set (responseHeaders hs)" by force
  then show ?thesis unfolding responseHeaders_keys by simp
qed

lemma parsedBody_fallback:
  "JSON_parse w t = None \<Longrightarrow> parsedBody w resp t = Raw t"
  by (simp add: parsedBody_def)

lemma respond_json_fallback:
  assumes "fst (respond w cfg resp) = JsonOk pr"
  shows "reply_status (fst (respond w cfg resp)) = 200
       \<and> out_status pr = status resp \<and> out_statusText pr = statusText resp
       \<and> out_headers pr = responseHeaders (headers resp)
       \<and> (\<exists>t. out_body pr = parsedBody w resp t
             \<and> (JSON_parse w t = None \<longrightarrow> out_body pr = Raw t))"
proof -
  from respond_ok [OF assms] obtain t where "pr = proxyResponse w resp t"
    by (cases "body resp") auto
  then show ?thesis
    using assms by (auto simp: proxyResponse_def parsedBody_fallback)
qed

text \<open>
  Claim C9. The header map of the reply never holds \<^verbatim>\<open>Set-Cookie\<close> in any case
  (\<open>responseHeaders_no_set_cookie\<close>), a header under any other name but one is copied with
  its value (\<open>responseHeaders_keys\<close>, \<open>responseHeaders_value\<close>), and a body that does not
  parse as JSON is returned as text with status 200 (\<open>respond_json_fallback\<close>). The claim
  fails for an upstream header named \<^verbatim>\<open>__proto__\<close>: \<^verbatim>\<open>responseHeaders[key] = value\<close> then
  calls the setter of \<^verbatim>\<open>Object.prototype\<close>, which ignores a string, so the header is not
  copied. The upstream of the example sends the three headers \<^verbatim>\<open>__proto__\<close>,
  \<^verbatim>\<open>content-type\<close> and \<^verbatim>\<open>x-a\<close>; the reply holds two.
\<close>

theorem proto_header_dropped:
  "fst (proxy_post (w_fetch (answer_with proto_header)) cfg0 req0)
     = JsonOk \<lparr>out_status = 200, out_statusText = ''OK'',
               out_headers = [(''content-type'', ''application/json''), (''x-a'', ''1'')],
               out_body = Raw ''{a''\<rparr>
   \<and> (''__proto__'', ''x'') \<in> set (headers proto_header)"
proof -
  let ?w = "w_fetch (answer_with proto_header)"
  let ?i = "fetchOptions ?w (methodOf req0) (outgoingHeaders req0) (req_body req0) 0"
  have acc: "accepted ?w cfg0 (req_url req0)"
    using site_accepted [of cfg0] by (simp add: cfg0_def req0_def)
  have le: "0 \<le> proxyMaxRedirects cfg0" by (simp add: cfg0_def)
  have fin: "final_response ?w k u i = Some proto_header" for k u i
    by (rule answer_final) (simp add: proto_header_def)
  note fs = only_fetch [OF acc le fin]
  have a1: "fetches (snd (proxy_post ?w cfg0 req0)) \<noteq> []" by (simp add: fs)
  have a2: "last (fetches (snd (proxy_post ?w cfg0 req0))) = (req_url req0, ?i)" by (simp add: fs)
  note p = post_final [OF a1 a2 fin, THEN conjunct1]
  have r: "fst (respond ?w cfg0 proto_header)
     = JsonOk \<lparr>out_status = 200, out_statusText = ''OK'',
               out_headers = [(''content-type'', ''application/json''), (''x-a'', ''1'')],
               out_body = Raw ''{a''\<rparr>"
    by code_simp
  show ?thesis
    unfolding p r by (simp add: proto_header_def)
qed

end
